theory Spec2Isabelle
  imports Complex_Main "HOL-Library.Signed_Division"
begin

section \<open>The PDF renderer of TeXmacs (pdf\_hummus\_renderer.cpp)\<close>

text \<open>
  The renderer translates drawing primitives into the operators of a PDF page content
  stream and keeps deferred tables (labels, destinations, outlines, images, Type 3 fonts)
  that are written when the document is closed. The model below follows
  \<^verbatim>\<open>pdf_hummus_renderer_rep\<close> member by member:
  \<^item> the object is a record, each member function takes the record and returns it updated;
  \<^item> the calls on \<^verbatim>\<open>contentContext\<close> append operators to the field \<open>content\<close>;
  \<^item> \<^verbatim>\<open>SI\<close> and \<^verbatim>\<open>int\<close> are \<open>int\<close>, and \<^verbatim>\<open>/\<close> on them is the truncating division
    \<open>sdiv\<close>; \<^verbatim>\<open>double\<close> is idealised as \<open>real\<close>;
  \<^item> the object registry of the PDF library hands out the identifiers 1, 2, 3, ...; the
    field \<open>next_id\<close> holds the last identifier handed out;
  \<^item> functions of TeXmacs that are declared elsewhere (\<^verbatim>\<open>get_rgb_color\<close>,
    \<^verbatim>\<open>outer_round\<close>, the font lookup) are parameters of the functions that call them.
\<close>

subsection \<open>Data\<close>

type_synonym SI = int
type_synonym color = int
type_synonym rgb = "int \<times> int \<times> int"
type_synonym ObjectIDType = nat

text \<open>The members of a \<^verbatim>\<open>glyph\<close> that the renderer reads (the raster itself is left out).\<close>

record glyph =
  width :: int
  height :: int
  xoff :: int
  yoff :: int
  lwidth :: int
  index :: int

text \<open>\<^verbatim>\<open>quartet<int,int,int,glyph>\<close>: position x, position y, character code, glyph.\<close>

type_synonym drawn_glyph = "int \<times> int \<times> int \<times> glyph"

text \<open>
  The value of a \<^verbatim>\<open>double\<close> expression that divides by a member that may be 0: a
  number (as a real; rounding is left out), an infinity or not-a-number. A divisor of 0 is
  the positive zero.
\<close>

datatype double = Finite real | PlusInf | MinusInf | NaN

fun dmul :: "real \<Rightarrow> double \<Rightarrow> double" where
  "dmul a (Finite b) = Finite (a * b)"
| "dmul a PlusInf = (if a > 0 then PlusInf else if a < 0 then MinusInf else NaN)"
| "dmul a MinusInf = (if a > 0 then MinusInf else if a < 0 then PlusInf else NaN)"
| "dmul a NaN = NaN"

fun ddiv :: "double \<Rightarrow> real \<Rightarrow> double" where
  "ddiv (Finite a) b =
     (if b \<noteq> 0 then Finite (a / b) else if a > 0 then PlusInf else if a < 0 then MinusInf else NaN)"
| "ddiv PlusInf b = (if b \<ge> 0 then PlusInf else MinusInf)"
| "ddiv MinusInf b = (if b \<ge> 0 then MinusInf else PlusInf)"
| "ddiv NaN b = NaN"

text \<open>
  An entry of the list given to the operator \<^verbatim>\<open>TJ\<close>: a list of (glyph index, character
  code) pairs shown in one piece, or a number that moves the pen.
\<close>

datatype tj_item = GlyphList "(int \<times> int) list" | Spacing double

datatype token =
    Op_q | Op_Q
  | Op_cm real real real real real real
  | Op_re real real real real
  | Op_W | Op_n
  | Op_m real real
  | Op_l real real
  | Op_c real real real real real real
  | Op_S | Op_h | Op_f
  | Op_rg real real real
  | Op_RG real real real
  | Op_w real
  | Op_gs ObjectIDType
  | Op_BT | Op_ET
  | Op_Tm real real real real real real
  | Op_Td real real
  | Op_TJ "tj_item list"
  | Op_Tf ObjectIDType real
  | Op_TfLow ObjectIDType real
  | Op_TjLow int
  | Op_Do ObjectIDType

record pencil =
  get_color :: color
  get_width :: SI

text \<open>\<^verbatim>\<open>quartet<string,int,SI,SI>\<close> and \<^verbatim>\<open>quintuple<string,int,SI,SI,int>\<close>.\<close>

type_synonym dest_data = "string \<times> int \<times> SI \<times> SI"
type_synonym outline_data = "string \<times> int \<times> SI \<times> SI \<times> int"

text \<open>
  A link annotation as \<^verbatim>\<open>href\<close> writes it: the border flag, the rectangle and either
  the label identifier after \<^verbatim>\<open>/Dest /label\<close> or the text of the \<^verbatim>\<open>/URI\<close> action.
\<close>

datatype link_target = Dest int | URI string

text \<open>
  A message printed on \<^verbatim>\<open>cout\<close> or \<^verbatim>\<open>cerr\<close>: \<^verbatim>\<open>make_pdf_font\<close> reports a font file
  that the PDF library cannot load. (The other messages of the source report failures of
  the PDF library itself, which is taken to succeed.)
\<close>

datatype diagnostic = Problems_with_font string

record annot =
  an_preserve :: bool
  an_rect :: "real \<times> real \<times> real \<times> real"
  an_target :: link_target

text \<open>
  The dictionary of one outline item as \<^verbatim>\<open>recurse\<close> writes it. \<^verbatim>\<open>/Prev\<close> and
  \<^verbatim>\<open>/Next\<close> are written when the identifier is not 0; \<^verbatim>\<open>/First\<close>, \<^verbatim>\<open>/Last\<close> and
  \<^verbatim>\<open>/Count\<close> are written together or not at all.
\<close>

record outline_item =
  Title :: string
  Parent :: ObjectIDType
  Prev :: "ObjectIDType option"
  Next :: "ObjectIDType option"
  First :: "ObjectIDType option"
  Last :: "ObjectIDType option"
  Count :: "int option"
  DestPage :: ObjectIDType
  DestX :: real
  DestY :: real

text \<open>An entry of \<^verbatim>\<open>/Widths\<close> and an entry of \<^verbatim>\<open>/Differences\<close> of a Type 3 font.\<close>

datatype width_entry = Declared int | Zero

datatype diff_entry = Code int | CharName int

text \<open>
  The content of a glyph procedure: \<^verbatim>\<open>lwidth 0 llx lly urx ury d1\<close> followed by the
  inline image of \<^verbatim>\<open>cwidth\<close> by \<^verbatim>\<open>cheight\<close> samples (the samples are left out).
\<close>

record char_proc =
  cp_lwidth :: int
  cp_bbox :: "int \<times> int \<times> int \<times> int"
  cp_cwidth :: int
  cp_cheight :: int

record font_dict =
  FontBBox :: "int \<times> int \<times> int \<times> int"
  FirstChar :: int
  LastChar :: int
  Widths :: "width_entry list"
  CharProcs :: "(int \<times> ObjectIDType) list"
  notdef :: ObjectIDType
  Differences :: "diff_entry list"

text \<open>The indirect objects written when the document is closed.\<close>

datatype pdf_object =
    DestsDict "(int \<times> ObjectIDType \<times> real \<times> real) list"
  | OutlineItem outline_item
  | OutlinesDict ObjectIDType ObjectIDType int
  | CharProc char_proc
  | FontDict font_dict

text \<open>
  \<^verbatim>\<open>font_glyphs\<close>: the name and the glyph of each character (\<open>None\<close> is the nil
  glyph). \<^verbatim>\<open>t3font_rep\<close>: the keys of the hash map \<^verbatim>\<open>used_chars\<close> are a list without
  repetition, in the order in which the map enumerates them.
\<close>

record font_glyphs =
  res_name :: string
  get :: "int \<Rightarrow> glyph option"

record t3font =
  fn :: font_glyphs
  fontId :: ObjectIDType
  used_chars :: "int list"
  firstchar :: int
  lastchar :: int
  b0 :: int
  b1 :: int
  b2 :: int
  b3 :: int
  first_glyph :: bool

record renderer =
  pixel :: int
  ox :: SI
  oy :: SI
  dpi :: int
  paper_w :: real
  paper_h :: real
  page_num :: int
  inText :: bool
  alpha :: int
  stroke_rgb :: rgb
  fill_rgb :: rgb
  fg :: color
  bg :: color
  lw :: SI
  current_width :: real
  clip_level :: int
  pen :: pencil
  cfn :: string
  cfid :: "ObjectIDType option"
  fsize :: real
  prev_text_x :: real
  prev_text_y :: real
  drawn_glyphs :: "drawn_glyph list"
  pdf_fonts :: "string \<rightharpoonup> ObjectIDType"
  t3font_list :: "string \<rightharpoonup> t3font"
  image_pool :: "string \<rightharpoonup> ObjectIDType"
  alpha_id :: "int \<rightharpoonup> ObjectIDType"
  page_id :: "int \<rightharpoonup> ObjectIDType"
  annot_list :: "ObjectIDType \<rightharpoonup> annot"
  dests :: "dest_data list"
  destId :: ObjectIDType
  label_id :: "string \<rightharpoonup> int"
  label_count :: int
  outlineId :: ObjectIDType
  outlines :: "outline_data list"
  next_id :: ObjectIDType
  content :: "token list"
  pages :: "(ObjectIDType \<times> token list) list"
  objects :: "(ObjectIDType \<times> pdf_object) list"
  diag :: "diagnostic list"

subsection \<open>The collaborators\<close>

text \<open>\<^verbatim>\<open>AllocateNewObjectID\<close> of the library's registry: the next unused identifier.\<close>

definition AllocateNewObjectID :: "renderer \<Rightarrow> ObjectIDType \<times> renderer" where
  "AllocateNewObjectID s = (Suc (next_id s), s\<lparr>next_id := Suc (next_id s)\<rparr>)"

text \<open>A call on \<^verbatim>\<open>contentContext\<close> appends its operator to the page's content stream.\<close>

definition emit :: "token list \<Rightarrow> renderer \<Rightarrow> renderer" where
  "emit ts s = s\<lparr>content := content s @ ts\<rparr>"

subsection \<open>Geometry\<close>

text \<open>
  \<^verbatim>\<open>to_x\<close> and \<^verbatim>\<open>to_y\<close>: the division of \<^verbatim>\<open>SI\<close> values truncates (\<open>sdiv\<close>). The
  integers are unbounded here, and a division by a \<^verbatim>\<open>pixel\<close> of 0, undefined in the
  source, gives 0.
\<close>

definition to_x :: "renderer \<Rightarrow> SI \<Rightarrow> real" where
  "to_x s x0 =
     (let x = x0 + ox s
      in real_of_int (if x \<ge> 0 then x sdiv pixel s else (x - pixel s + 1) sdiv pixel s))"

definition to_y :: "renderer \<Rightarrow> SI \<Rightarrow> real" where
  "to_y s y0 =
     (let y = y0 + oy s
      in real_of_int (if y \<ge> 0 then y sdiv pixel s else (y - pixel s + 1) sdiv pixel s))"

subsection \<open>Text objects and the pending glyph run\<close>

definition begin_text :: "renderer \<Rightarrow> renderer" where
  "begin_text s =
     (if \<not> inText s
      then emit [Op_Tm 1 0 0 1 (to_x s 0) (to_y s 0)]
             ((emit [Op_BT] s)\<lparr>inText := True, prev_text_x := to_x s 0, prev_text_y := to_y s 0\<rparr>)
      else s)"

text \<open>
  The inner loop \<^verbatim>\<open>while (1)\<close> of \<^verbatim>\<open>draw_glyphs\<close>. \<open>x\<close>, \<open>y\<close>, \<open>w\<close> are the
  loop's current position and advance, \<open>gbuf1\<close> the glyphs of the piece being collected,
  \<open>gbuf\<close> the list built for \<^verbatim>\<open>TJ\<close>; the last argument is \<^verbatim>\<open>drawn_glyphs\<close>, not nil
  when the loop is entered. The second equation is the first \<^verbatim>\<open>break\<close> (no glyph
  follows), the third looks at the glyph that follows. The result is \<open>gbuf\<close>,
  \<open>gbuf1\<close> and the glyphs left.
\<close>

text \<open>The correction \<^verbatim>\<open>(double)(-dx*(1000.0/pixel)/fsize)\<close>.\<close>

definition correction :: "int \<Rightarrow> real \<Rightarrow> SI \<Rightarrow> double" where
  "correction px fs dx = ddiv (dmul (real_of_int (- dx)) (ddiv (Finite 1000) (real_of_int px))) fs"

fun glyph_run ::
  "int \<Rightarrow> real \<Rightarrow> SI \<Rightarrow> SI \<Rightarrow> SI \<Rightarrow> (int \<times> int) list \<Rightarrow> tj_item list \<Rightarrow> drawn_glyph list
     \<Rightarrow> tj_item list \<times> (int \<times> int) list \<times> drawn_glyph list" where
  "glyph_run px fs x y w gbuf1 gbuf [] = (gbuf, gbuf1, [])"
| "glyph_run px fs x y w gbuf1 gbuf [(_, _, ch, gl)] = (gbuf, gbuf1 @ [(index gl, ch)], [])"
| "glyph_run px fs x y w gbuf1 gbuf ((_, _, ch, gl) # (xx, yy, ch', gl') # rest) =
     (let gbuf1' = gbuf1 @ [(index gl, ch)];
          ww = lwidth gl' * px
      in if yy \<noteq> y then (gbuf, gbuf1', (xx, yy, ch', gl') # rest)
         else
           let dx = xx - x - w
           in if dx \<ge> 4 * px \<or> dx \<le> - 4 * px
              then glyph_run px fs (x + w + dx) y ww []
                     ((if length gbuf1' > 0 then gbuf @ [GlyphList gbuf1'] else gbuf)
                        @ [Spacing (correction px fs dx)])
                     ((xx, yy, ch', gl') # rest)
              else glyph_run px fs (x + w + 0) y ww gbuf1' gbuf ((xx, yy, ch', gl') # rest))"

lemma glyph_run_rest_le:
  "length (snd (snd (glyph_run px fs x y w gbuf1 gbuf gs))) \<le> length gs"
proof (induction px fs x y w gbuf1 gbuf gs rule: glyph_run.induct)
  case (3 px fs x y w gbuf1 gbuf uu uv ch gl xx yy ch' gl' rest)
  show ?case
    using "3.IH"(1) [OF refl refl _ refl] "3.IH"(2) [OF refl refl _ refl]
    by (auto simp: Let_def intro: le_SucI)
qed simp_all

lemma glyph_run_rest_less:
  "length (snd (snd (glyph_run px fs x y w gbuf1 gbuf (g # gs)))) < Suc (length gs)"
proof (cases gs)
  case Nil
  then show ?thesis by (cases g) simp
next
  case (Cons g' gs')
  obtain gx gy ch gl where g: "g = (gx, gy, ch, gl)" by (cases g) auto
  obtain xx yy ch' gl' where g': "g' = (xx, yy, ch', gl')" by (cases g') auto
  have le: "\<And>x w b1 b.
      length (snd (snd (glyph_run px fs x y w b1 b ((xx, yy, ch', gl') # gs')))) \<le> Suc (length gs')"
    using glyph_run_rest_le [of px fs _ y _ _ _ "(xx, yy, ch', gl') # gs'"] by simp
  show ?thesis
    unfolding g g' Cons glyph_run.simps Let_def
    using le by (auto simp: less_Suc_eq_le)
qed

text \<open>
  The outer loop of \<^verbatim>\<open>draw_glyphs\<close>: one \<^verbatim>\<open>Td\<close> and one \<^verbatim>\<open>TJ\<close> for each run. The
  arguments are the pixel size, the font size, \<^verbatim>\<open>prev_text_x\<close>, \<^verbatim>\<open>prev_text_y\<close> and
  \<^verbatim>\<open>drawn_glyphs\<close>; the result is the operators written and the last text position.
\<close>

function glyph_runs ::
  "int \<Rightarrow> real \<Rightarrow> real \<Rightarrow> real \<Rightarrow> drawn_glyph list \<Rightarrow> token list \<times> real \<times> real" where
  "glyph_runs px fs ptx pty [] = ([], ptx, pty)"
| "glyph_runs px fs ptx pty ((x, y, ch, gl) # rest) =
     (let (gbuf, gbuf1, left) = glyph_run px fs x y (lwidth gl * px) [] [] ((x, y, ch, gl) # rest);
          gbuf' = (if length gbuf1 > 0 then gbuf @ [GlyphList gbuf1] else gbuf);
          bx = real_of_int (x sdiv px);
          by = real_of_int (y sdiv px);
          (toks, ptx', pty') = glyph_runs px fs bx by left
      in (Op_Td (bx - ptx) (by - pty) # Op_TJ gbuf' # toks, ptx', pty'))"
  by pat_completeness auto
termination
proof (relation "measure (\<lambda>(px, fs, ptx, pty, gs). length gs)", goal_cases)
  case 1
  show ?case by simp
next
  case (2 px fs ptx pty x y ch gl rest xa gbuf ya gbuf1 left)
  have "left = snd (snd (glyph_run px fs x y (lwidth gl * px) [] [] ((x, y, ch, gl) # rest)))"
    using 2 by (metis snd_conv)
  then show ?case
    using glyph_run_rest_less [of px fs x y "lwidth gl * px" "[]" "[]" "(x, y, ch, gl)" rest]
    by simp
qed

definition draw_glyphs :: "renderer \<Rightarrow> renderer" where
  "draw_glyphs s =
     (if length (drawn_glyphs s) = 0 then s
      else
        let s1 = begin_text s;
            (toks, ptx, pty) =
               glyph_runs (pixel s1) (fsize s1) (prev_text_x s1) (prev_text_y s1) (drawn_glyphs s1)
        in (emit toks s1)\<lparr>prev_text_x := ptx, prev_text_y := pty, drawn_glyphs := []\<rparr>)"

definition end_text :: "renderer \<Rightarrow> renderer" where
  "end_text s = (if inText s then (emit [Op_ET] (draw_glyphs s))\<lparr>inText := False\<rparr> else s)"

subsection \<open>Graphic state management\<close>

definition select_alpha :: "int \<Rightarrow> renderer \<Rightarrow> renderer" where
  "select_alpha a s =
     (if alpha s \<noteq> a
      then
        let s1 = s\<lparr>alpha := a\<rparr>;
            s2 = (if a \<notin> dom (alpha_id s1)
                  then let (temp, s') = AllocateNewObjectID s1
                       in s'\<lparr>alpha_id := (alpha_id s')(a \<mapsto> temp)\<rparr>
                  else s1)
        in emit [Op_gs (the (alpha_id s2 a))] s2
      else s)"

text \<open>
  \<^verbatim>\<open>get_rgb_color\<close> is declared outside these sources: the parameter \<open>grc\<close> gives the
  red, green, blue and alpha components of a colour.
\<close>

definition select_stroke_color ::
  "(color \<Rightarrow> int \<times> int \<times> int \<times> int) \<Rightarrow> color \<Rightarrow> renderer \<Rightarrow> renderer" where
  "select_stroke_color grc c s =
     (let (r0, g0, b0, a0) = grc c;
          r = (r0 * 1000) sdiv 255;
          g = (g0 * 1000) sdiv 255;
          b = (b0 * 1000) sdiv 255;
          a = (a0 * 1000) sdiv 255;
          c1 = (r, g, b);
          s1 = (if stroke_rgb s \<noteq> c1
                then (emit [Op_RG (real_of_int r / 1000) (real_of_int g / 1000) (real_of_int b / 1000)] s)
                       \<lparr>stroke_rgb := c1\<rparr>
                else s)
      in select_alpha a s1)"

definition select_fill_color ::
  "(color \<Rightarrow> int \<times> int \<times> int \<times> int) \<Rightarrow> color \<Rightarrow> renderer \<Rightarrow> renderer" where
  "select_fill_color grc c s =
     (let (r0, g0, b0, a0) = grc c;
          r = (r0 * 1000) sdiv 255;
          g = (g0 * 1000) sdiv 255;
          b = (b0 * 1000) sdiv 255;
          a = (a0 * 1000) sdiv 255;
          c1 = (r, g, b);
          s1 = (if fill_rgb s \<noteq> c1
                then (emit [Op_rg (real_of_int r / 1000) (real_of_int g / 1000) (real_of_int b / 1000)] s)
                       \<lparr>fill_rgb := c1\<rparr>
                else s)
      in select_alpha a s1)"

definition select_line_width :: "SI \<Rightarrow> renderer \<Rightarrow> renderer" where
  "select_line_width w s =
     (let pw = real_of_int (w sdiv pixel s)
      in if pw \<noteq> current_width s then (emit [Op_w pw] s)\<lparr>current_width := pw\<rparr> else s)"

definition set_pencil ::
  "(color \<Rightarrow> int \<times> int \<times> int \<times> int) \<Rightarrow> pencil \<Rightarrow> renderer \<Rightarrow> renderer" where
  "set_pencil grc pen2 s =
     (let s1 = s\<lparr>pen := pen2\<rparr>;
          c = get_color pen2;
          s2 = (if fg s1 \<noteq> c
                then select_stroke_color grc c (select_fill_color grc c (draw_glyphs (s1\<lparr>fg := c\<rparr>)))
                else s1);
          s3 = s2\<lparr>lw := get_width pen2\<rparr>
      in select_line_width (lw s3) s3)"

subsection \<open>Clipping\<close>

text \<open>
  \<^verbatim>\<open>renderer_rep::set_clipping\<close> and \<^verbatim>\<open>outer_round\<close> belong to the base class, which
  is outside these sources. The first only records the rectangle in members that no
  function below reads and is left out; the second is the parameter \<open>ornd\<close>, which
  gets the pixel size, the origin and the rectangle.
\<close>

definition set_clipping ::
  "(int \<Rightarrow> SI \<Rightarrow> SI \<Rightarrow> SI \<times> SI \<times> SI \<times> SI \<Rightarrow> SI \<times> SI \<times> SI \<times> SI)
     \<Rightarrow> SI \<Rightarrow> SI \<Rightarrow> SI \<Rightarrow> SI \<Rightarrow> bool \<Rightarrow> renderer \<Rightarrow> renderer" where
  "set_clipping ornd x1 y1 x2 y2 restore s =
     (let s1 = end_text s;
          (rx1, ry1, rx2, ry2) = ornd (pixel s1) (ox s1) (oy s1) (x1, y1, x2, y2)
      in if restore
         then
           let s2 = emit [Op_Q] s1;
               s3 = (if clip_level s2 > 0 then s2\<lparr>clip_level := clip_level s2 - 1\<rparr> else s2)
           in s3\<lparr>cfn := []\<rparr>
         else
           let s2 = (emit [Op_q] s1)\<lparr>clip_level := clip_level s1 + 1\<rparr>;
               xx1 = to_x s2 (min rx1 rx2);
               yy1 = to_y s2 (min ry1 ry2);
               xx2 = to_x s2 (max rx1 rx2);
               yy2 = to_y s2 (max ry1 ry2)
           in emit [Op_re xx1 yy1 (xx2 - xx1) (yy2 - yy1), Op_W, Op_n] s2)"

subsection \<open>Pages\<close>

text \<open>The conversion of a \<^verbatim>\<open>double\<close> to an integer type drops the fraction.\<close>

definition trunc :: "real \<Rightarrow> int" where
  "trunc r = (if r \<ge> 0 then \<lfloor>r\<rfloor> else \<lceil>r\<rceil>)"

definition begin_page ::
  "(int \<Rightarrow> SI \<Rightarrow> SI \<Rightarrow> SI \<times> SI \<times> SI \<times> SI \<Rightarrow> SI \<times> SI \<times> SI \<times> SI) \<Rightarrow> renderer \<Rightarrow> renderer" where
  "begin_page ornd s =
     (let s1 = s\<lparr>content := [], alpha := 255, fg := - 1, bg := - 1, lw := - 1,
                 current_width := - 1, cfn := [], cfid := None, inText := False,
                 clip_level := 0\<rparr>;
          s2 = emit [Op_q,
                     Op_cm (72 / real_of_int (dpi s1)) 0 0 (72 / real_of_int (dpi s1)) 0 0] s1;
          s3 = s2\<lparr>ox := 0,
                  oy := trunc (paper_h s2 * real_of_int (dpi s2) * real_of_int (pixel s2) / 2.54)\<rparr>
      in set_clipping ornd 0
           (trunc (real_of_int (- dpi s3 * pixel s3) * paper_h s3 / 2.54))
           (trunc (real_of_int (dpi s3 * pixel s3) * paper_w s3 / 2.54)) 0 False s3)"

text \<open>
  The loop \<^verbatim>\<open>while (clip_level--) contentContext->Q();\<close> of \<^verbatim>\<open>end_page\<close>: the test
  reads the level and then decrements it, also when the test fails. On a negative level
  the loop does not stop (the result is \<open>None\<close>).
\<close>

partial_function (option) close_clips :: "int \<Rightarrow> token list \<Rightarrow> (int \<times> token list) option" where
  "close_clips lvl out =
     (if lvl \<noteq> 0 then close_clips (lvl - 1) (out @ [Op_Q]) else Some (lvl - 1, out))"

text \<open>
  \<^verbatim>\<open>end_page\<close>. \<^verbatim>\<open>page\<close> is never null once the constructor has run, so the first
  line of the source is no branch here. The page object gets its identifier from the
  registry when the library writes it.
\<close>

definition end_page :: "renderer \<Rightarrow> renderer option" where
  "end_page s =
     (let s1 = end_text s
      in case close_clips (clip_level s1) (content s1) of
           None \<Rightarrow> None
         | Some (lvl, out) \<Rightarrow>
             let s2 = emit [Op_Q] (s1\<lparr>clip_level := lvl, content := out\<rparr>);
                 (pid, s3) = AllocateNewObjectID s2
             in Some (s3\<lparr>pages := pages s3 @ [(pid, content s3)],
                         page_id := (page_id s3)(page_num s3 \<mapsto> pid),
                         page_num := page_num s3 + 1\<rparr>))"

definition next_page ::
  "(int \<Rightarrow> SI \<Rightarrow> SI \<Rightarrow> SI \<times> SI \<times> SI \<times> SI \<Rightarrow> SI \<times> SI \<times> SI \<times> SI) \<Rightarrow> renderer \<Rightarrow> renderer option" where
  "next_page ornd s = map_option (begin_page ornd) (end_page s)"

subsection \<open>Graphics primitives\<close>

definition line :: "SI \<Rightarrow> SI \<Rightarrow> SI \<Rightarrow> SI \<Rightarrow> renderer \<Rightarrow> renderer" where
  "line x1 y1 x2 y2 s =
     (let s1 = end_text s
      in emit [Op_m (to_x s1 x1) (to_y s1 y1), Op_l (to_x s1 x2) (to_y s1 y2), Op_S] s1)"

definition lines :: "SI list \<Rightarrow> SI list \<Rightarrow> renderer \<Rightarrow> renderer" where
  "lines x y s =
     (let s1 = end_text s;
          n = int (length x)
      in if int (length y) \<noteq> n \<or> n < 1 then s1
         else emit ([Op_m (to_x s1 (x ! 0)) (to_y s1 (y ! 0))]
                      @ map (\<lambda>i. Op_l (to_x s1 (x ! i)) (to_y s1 (y ! i))) [1 ..< length x]
                      @ [Op_S]) s1)"

definition clear ::
  "(color \<Rightarrow> int \<times> int \<times> int \<times> int) \<Rightarrow> SI \<Rightarrow> SI \<Rightarrow> SI \<Rightarrow> SI \<Rightarrow> renderer \<Rightarrow> renderer" where
  "clear grc x1 y1 x2 y2 s =
     (let s1 = end_text s;
          xx1 = to_x s1 (min x1 x2);
          yy1 = to_y s1 (min y1 y2);
          xx2 = to_x s1 (max x1 x2);
          yy2 = to_y s1 (max y1 y2);
          s2 = emit [Op_q] s1;
          s3 = select_fill_color grc (bg s2) s2;
          s4 = emit [Op_re xx1 yy1 (xx2 - xx1) (yy2 - yy1), Op_h, Op_f] s3;
          s5 = select_fill_color grc (fg s4) s4
      in emit [Op_Q] s5)"

definition fill :: "SI \<Rightarrow> SI \<Rightarrow> SI \<Rightarrow> SI \<Rightarrow> renderer \<Rightarrow> renderer" where
  "fill x1 y1 x2 y2 s =
     (if x1 < x2 \<and> y1 < y2
      then
        let s1 = end_text s;
            xx1 = to_x s1 (min x1 x2);
            yy1 = to_y s1 (min y1 y2);
            xx2 = to_x s1 (max x1 x2);
            yy2 = to_y s1 (max y1 y2)
        in emit [Op_re xx1 yy1 (xx2 - xx1) (yy2 - yy1), Op_h, Op_f] s1
      else s)"

text \<open>
  The loop of \<^verbatim>\<open>bezier_arc\<close>: \<^verbatim>\<open>prev_phi\<close> and \<^verbatim>\<open>delta\<close> are the loop's variables, the
  result is the operators of all iterations (a rotation and a curve each).
\<close>

function arc_segments :: "int \<Rightarrow> int \<Rightarrow> token list" where
  "arc_segments prev_phi delta =
     (if delta > 0
      then
        let phi = min delta (90 * 64);
            delta' = delta - phi;
            sphi = sin (2 * pi * real_of_int (phi + prev_phi) / (2 * 360 * 64));
            cphi = cos (2 * pi * real_of_int (phi + prev_phi) / (2 * 360 * 64));
            sphi' = sin (2 * pi * real_of_int phi / (2 * 360 * 64));
            cphi' = cos (2 * pi * real_of_int phi / (2 * 360 * 64));
            bx0 = cphi'; by0 = sphi';
            bx1 = (4 - bx0) / 3; by1 = (1 - bx0) * (3 - bx0) / (3 * by0);
            bx2 = bx1; by2 = - by1
        in Op_cm cphi sphi (- sphi) cphi 0 0 # Op_c bx2 by2 bx1 by1 bx0 by0 # arc_segments phi delta'
      else [])"
  by pat_completeness auto
termination
  by (relation "measure (\<lambda>(prev_phi, delta). nat delta)") auto

declare arc_segments.simps [simp del]

definition bezier_arc :: "SI \<Rightarrow> SI \<Rightarrow> SI \<Rightarrow> SI \<Rightarrow> int \<Rightarrow> int \<Rightarrow> renderer \<Rightarrow> renderer" where
  "bezier_arc x1 y1 x2 y2 alpha0 delta s =
     (let s1 = emit [Op_q] s;
          xx1 = to_x s1 x1; yy1 = to_y s1 y1; xx2 = to_x s1 x2; yy2 = to_y s1 y2;
          cx = (xx1 + xx2) / 2; cy = (yy1 + yy2) / 2;
          rx = (xx2 - xx1) / 2; ry = (yy2 - yy1) / 2;
          s2 = emit [Op_cm rx 0 0 ry cx cy] s1;
          s3 = (if alpha0 \<noteq> 0
                then let a = 2 * pi * real_of_int alpha0 / (360 * 64)
                     in emit [Op_cm (cos a) (sin a) (- sin a) (cos a) 0 0] s2
                else s2);
          s4 = (if delta = 360 * 64 then emit [Op_m 1 0] s3 else emit [Op_m 0 0, Op_l 1 0] s3);
          s5 = emit (arc_segments 0 delta) s4
      in emit [Op_h, Op_Q] s5)"

definition arc :: "SI \<Rightarrow> SI \<Rightarrow> SI \<Rightarrow> SI \<Rightarrow> int \<Rightarrow> int \<Rightarrow> renderer \<Rightarrow> renderer" where
  "arc x1 y1 x2 y2 alpha0 delta s = emit [Op_S] (bezier_arc x1 y1 x2 y2 alpha0 delta (end_text s))"

definition fill_arc :: "SI \<Rightarrow> SI \<Rightarrow> SI \<Rightarrow> SI \<Rightarrow> int \<Rightarrow> int \<Rightarrow> renderer \<Rightarrow> renderer" where
  "fill_arc x1 y1 x2 y2 alpha0 delta s =
     emit [Op_f] (bezier_arc x1 y1 x2 y2 alpha0 delta (end_text s))"

definition polygon :: "SI list \<Rightarrow> SI list \<Rightarrow> bool \<Rightarrow> renderer \<Rightarrow> renderer" where
  "polygon x y convex s =
     (let s1 = end_text s;
          n = int (length x)
      in if int (length y) \<noteq> n \<or> n < 1 then s1
         else emit ([Op_m (to_x s1 (x ! 0)) (to_y s1 (y ! 0))]
                      @ map (\<lambda>i. Op_l (to_x s1 (x ! i)) (to_y s1 (y ! i))) [1 ..< length x]
                      @ [Op_h, Op_f]) s1)"

subsection \<open>Images\<close>

text \<open>
  \<^verbatim>\<open>image\<close> (here \<open>image_pdf\<close>): the key of \<^verbatim>\<open>image_pool\<close> is the tree of the url, here the string \<open>u\<close>; a
  \<^verbatim>\<open>pdf_image\<close> is represented by its object identifier. A crop box of width or height
  zero makes the source divide by zero (an infinite scale), where HOL's division gives 0.
\<close>

definition image_pdf ::
  "string \<Rightarrow> SI \<Rightarrow> SI \<Rightarrow> SI \<Rightarrow> SI \<Rightarrow> real \<Rightarrow> real \<Rightarrow> real \<Rightarrow> real \<Rightarrow> int \<Rightarrow> renderer \<Rightarrow> renderer" where
  "image_pdf u w h x y cx1 cy1 cx2 cy2 alpha0 s =
     (let (im, s1) =
            (case image_pool s u of
               Some i \<Rightarrow> (i, s)
             | None \<Rightarrow>
                 let (i, s') = AllocateNewObjectID s
                 in (i, s'\<lparr>image_pool := (image_pool s')(u \<mapsto> i)\<rparr>));
          sc_x = real_of_int (w sdiv pixel s1) / (cx2 - cx1);
          sc_y = real_of_int (h sdiv pixel s1) / (cy2 - cy1);
          s2 = end_text s1
      in emit [Op_q, Op_cm sc_x 0 0 sc_y (to_x s2 x) (to_y s2 y), Op_Do im, Op_Q] s2)"

subsection \<open>Drawing a character\<close>

definition add_glyph :: "int \<Rightarrow> t3font \<Rightarrow> t3font" where
  "add_glyph ch f =
     f\<lparr>used_chars := (if ch \<in> set (used_chars f) then used_chars f else used_chars f @ [ch])\<rparr>"

text \<open>
  The constructor of \<^verbatim>\<open>t3font_rep\<close> takes the font's identifier from the registry; the
  members that the constructor leaves unset are 0 here.
\<close>

definition new_t3font :: "font_glyphs \<Rightarrow> ObjectIDType \<Rightarrow> t3font" where
  "new_t3font f i =
     \<lparr>fn = f, fontId = i, used_chars = [], firstchar = 0, lastchar = 0,
      b0 = 0, b1 = 0, b2 = 0, b3 = 0, first_glyph = True\<rparr>"

text \<open>
  \<^verbatim>\<open>make_pdf_font\<close>. The font resolver \<^verbatim>\<open>tt_font_find\<close> and the PDF library's
  \<^verbatim>\<open>GetFontForFile\<close> are the parameter \<open>find_font\<close>: for a font name, no file is found,
  or a file that the library cannot load (then the message is printed), or the handle of
  the font.
\<close>

datatype found_font = No_file | No_font | Font ObjectIDType

definition make_pdf_font :: "(string \<Rightarrow> found_font) \<Rightarrow> string \<Rightarrow> renderer \<Rightarrow> renderer" where
  "make_pdf_font find_font fontname s =
     (case find_font fontname of
        No_file \<Rightarrow> s
      | Font font \<Rightarrow> s\<lparr>pdf_fonts := (pdf_fonts s)(fontname \<mapsto> font)\<rparr>
      | No_font \<Rightarrow> s\<lparr>diag := diag s @ [Problems_with_font fontname]\<rparr>)"

text \<open>
  \<^verbatim>\<open>draw\<close>. \<^verbatim>\<open>font_size\<close> reads the size out of the name with string functions
  declared elsewhere and is the parameter \<open>font_size\<close>. The result is \<open>None\<close> where the
  source would follow a nil \<^verbatim>\<open>t3font\<close>.
\<close>

definition draw ::
  "(string \<Rightarrow> found_font) \<Rightarrow> (string \<Rightarrow> real) \<Rightarrow> int \<Rightarrow> font_glyphs \<Rightarrow> SI \<Rightarrow> SI
     \<Rightarrow> renderer \<Rightarrow> renderer option" where
  "draw find_font font_size ch f x y s =
     (case get f ch of
        None \<Rightarrow> Some s
      | Some gl \<Rightarrow>
          let fontname = res_name f;
              sel =
                (if cfn s \<noteq> fontname
                 then
                   let s1 = (if pdf_fonts s fontname = None
                             then (if fontname \<notin> dom (t3font_list s)
                                   then
                                     let s' = make_pdf_font find_font fontname s
                                     in if pdf_fonts s' fontname = None
                                        then let (i, s'') = AllocateNewObjectID s'
                                             in s''\<lparr>t3font_list :=
                                                      (t3font_list s'')(fontname \<mapsto> new_t3font f i)\<rparr>
                                        else s'
                                   else s)
                             else s);
                       s2 = draw_glyphs (begin_text s1);
                       s3 = s2\<lparr>cfn := fontname, fsize := font_size fontname\<rparr>
                   in (case pdf_fonts s3 fontname of
                         Some font \<Rightarrow> Some (emit [Op_Tf font (fsize s3)] (s3\<lparr>cfid := Some font\<rparr>))
                       | None \<Rightarrow>
                           (case t3font_list s3 fontname of
                              Some t3 \<Rightarrow> Some (emit [Op_TfLow (fontId t3) 100] (s3\<lparr>cfid := None\<rparr>))
                            | None \<Rightarrow> None))
                 else Some s)
          in (case sel of
               None \<Rightarrow> None
             | Some s4 \<Rightarrow>
                 if cfid s4 \<noteq> None
                 then
                   let s5 = begin_text s4
                   in Some (s5\<lparr>drawn_glyphs := drawn_glyphs s5 @ [(ox s5 + x, oy s5 + y, ch, gl)]\<rparr>)
                 else
                   let s5 = begin_text s4;
                       s6 = (emit [Op_Td (to_x s5 x - prev_text_x s5) (to_y s5 y - prev_text_y s5)] s5)
                              \<lparr>prev_text_x := to_x s5 x, prev_text_y := to_y s5 y\<rparr>
                   in (case t3font_list s6 fontname of
                         None \<Rightarrow> None
                       | Some t3 \<Rightarrow>
                           Some (emit [Op_TjLow ch]
                                   (s6\<lparr>t3font_list := (t3font_list s6)(fontname \<mapsto> add_glyph ch t3)\<rparr>)))))"

subsection \<open>Type 3 fonts\<close>

definition update_bbox :: "int \<Rightarrow> int \<Rightarrow> int \<Rightarrow> int \<Rightarrow> t3font \<Rightarrow> t3font" where
  "update_bbox llx lly urx ury f =
     (if first_glyph f
      then f\<lparr>b0 := llx, b1 := lly, b2 := urx, b3 := ury, first_glyph := False\<rparr>
      else
        let f1 = (if llx < b0 f then f\<lparr>b0 := llx\<rparr> else f);
            f2 = (if lly < b1 f1 then f1\<lparr>b1 := lly\<rparr> else f1);
            f3 = (if urx > b2 f2 then f2\<lparr>b2 := urx\<rparr> else f2)
        in (if ury > b3 f3 then f3\<lparr>b3 := ury\<rparr> else f3))"

text \<open>
  \<^verbatim>\<open>write_char\<close> reads the members of the glyph before it tests for nil, so a nil
  glyph is a failure (\<open>None\<close>). The result is the glyph procedure and the font with
  its bounding box updated.
\<close>

definition write_char :: "glyph option \<Rightarrow> t3font \<Rightarrow> (char_proc \<times> t3font) option" where
  "write_char g f =
     (case g of
        None \<Rightarrow> None
      | Some gl \<Rightarrow>
          let llx = - xoff gl;
              lly = yoff gl - height gl + 1;
              urx = width gl - xoff gl + 1;
              ury = yoff gl + 1
          in Some (\<lparr>cp_lwidth = lwidth gl, cp_bbox = (llx, lly, urx, ury),
                    cp_cwidth = width gl, cp_cheight = height gl\<rparr>,
                   update_bbox llx lly urx ury f))"

text \<open>
  The first loop of \<^verbatim>\<open>write_definition\<close>: an identifier and a glyph procedure for each
  used character. The arguments are the characters left, the font, the registry's last
  identifier and the objects written; \<open>charIds\<close> comes back in the order of the
  characters.
\<close>

fun write_glyphs ::
  "int list \<Rightarrow> t3font \<Rightarrow> ObjectIDType \<Rightarrow> (ObjectIDType \<times> pdf_object) list
     \<Rightarrow> (ObjectIDType list \<times> t3font \<times> ObjectIDType \<times> (ObjectIDType \<times> pdf_object) list) option" where
  "write_glyphs [] f nid objs = Some ([], f, nid, objs)"
| "write_glyphs (ch # chs) f nid objs =
     (let temp = Suc nid
      in case write_char (get (fn f) ch) f of
           None \<Rightarrow> None
         | Some (cp, f') \<Rightarrow>
             (case write_glyphs chs f' temp (objs @ [(temp, CharProc cp)]) of
                None \<Rightarrow> None
              | Some (ids, f'', nid', objs') \<Rightarrow> Some (temp # ids, f'', nid', objs')))"

text \<open>The loop that writes \<^verbatim>\<open>/Widths\<close>, over the codes from \<^verbatim>\<open>firstchar\<close> to \<^verbatim>\<open>lastchar\<close>.\<close>

fun widths :: "t3font \<Rightarrow> int list \<Rightarrow> width_entry list option" where
  "widths f [] = Some []"
| "widths f (i # is) =
     (if i \<in> set (used_chars f)
      then (case get (fn f) i of
              None \<Rightarrow> None
            | Some gl \<Rightarrow> map_option (\<lambda>ws. Declared (lwidth gl) # ws) (widths f is))
      else map_option (\<lambda>ws. Zero # ws) (widths f is))"

text \<open>
  The loop that writes \<^verbatim>\<open>/Differences\<close>; the last argument is \<^verbatim>\<open>previousEncoding\<close>.
\<close>

fun differences :: "t3font \<Rightarrow> int list \<Rightarrow> int \<Rightarrow> diff_entry list" where
  "differences f [] previousEncoding = []"
| "differences f (i # is) previousEncoding =
     (if i \<in> set (used_chars f)
      then (if previousEncoding + 1 \<noteq> i then [Code i] else []) @ [CharName i] @ differences f is i
      else differences f is previousEncoding)"

text \<open>
  \<^verbatim>\<open>write_definition\<close>. \<^verbatim>\<open>merge_sort\<close> is \<open>sort\<close>. With no used character the source
  reads \<^verbatim>\<open>glyph_list [0]\<close> of an empty array: \<open>None\<close>. The result is the font with
  its members set, the registry's last identifier and the objects written, the font
  dictionary last.
\<close>

definition write_definition ::
  "t3font \<Rightarrow> ObjectIDType \<Rightarrow> (ObjectIDType \<times> pdf_object) list
     \<Rightarrow> (t3font \<times> ObjectIDType \<times> (ObjectIDType \<times> pdf_object) list) option" where
  "write_definition f nid objs =
     (let glyph_list = sort (used_chars f)
      in if glyph_list = [] then None
         else
           let f1 = f\<lparr>firstchar := glyph_list ! 0, lastchar := glyph_list ! (length glyph_list - 1)\<rparr>
           in case write_glyphs glyph_list f1 nid objs of
                None \<Rightarrow> None
              | Some (charIds, f2, nid', objs') \<Rightarrow>
                  (case widths f2 [firstchar f2 .. lastchar f2] of
                     None \<Rightarrow> None
                   | Some ws \<Rightarrow>
                       Some (f2, nid',
                             objs' @ [(fontId f2, FontDict
                               \<lparr>FontBBox = (b0 f2, b1 f2, b2 f2, b3 f2),
                                FirstChar = firstchar f2, LastChar = lastchar f2,
                                Widths = ws,
                                CharProcs = zip glyph_list charIds,
                                notdef = charIds ! 0,
                                Differences =
                                  differences f2 [firstchar f2 .. lastchar f2] (firstchar f2)\<rparr>)])))"

subsection \<open>Hyperlinks\<close>

text \<open>
  \<^verbatim>\<open>prepare_text\<close>: parentheses and the backslash get a backslash in front, a character
  up to 32 or from 128 is written as a backslash and three octal digits.
\<close>

definition prepare_char :: "char \<Rightarrow> string" where
  "prepare_char ch =
     (let c = (of_char ch :: nat)
      in if ch = CHR ''('' \<or> ch = CHR '')'' \<or> ch = CHR 0x5C then [CHR 0x5C, ch]
         else if c \<le> 32 \<or> c \<ge> 128
         then [CHR 0x5C, char_of (48 + c div 64), char_of (48 + (c div 8) mod 8),
               char_of (48 + c mod 8)]
         else [ch])"

definition prepare_text :: "string \<Rightarrow> string" where
  "prepare_text s = concat (map prepare_char s)"

definition get_label_id :: "string \<Rightarrow> renderer \<Rightarrow> int \<times> renderer" where
  "get_label_id label s =
     (let s1 = (if label \<notin> dom (label_id s)
                then s\<lparr>label_id := (label_id s)(label \<mapsto> label_count s),
                       label_count := label_count s + 1\<rparr>
                else s)
      in (the (label_id s1 label), s1))"

definition anchor :: "string \<Rightarrow> SI \<Rightarrow> SI \<Rightarrow> renderer \<Rightarrow> renderer" where
  "anchor label x y s =
     (let l = prepare_text label
      in s\<lparr>dests := dests s @ [(l, page_num s, trunc (to_x s x), trunc (to_y s y))]\<rparr>)"

text \<open>
  \<^verbatim>\<open>href\<close>. The flag \<open>preserve\<close> is the result of \<^verbatim>\<open>get_locus_rendering\<close>, declared
  elsewhere. \<^verbatim>\<open>starts (label, "#")\<close> is \<open>take 1 label = ''#''\<close>.
\<close>

definition href :: "bool \<Rightarrow> string \<Rightarrow> SI \<Rightarrow> SI \<Rightarrow> SI \<Rightarrow> SI \<Rightarrow> renderer \<Rightarrow> renderer" where
  "href preserve label x1 y1 x2 y2 s =
     (let (annotId, s1) = AllocateNewObjectID s;
          k = 72 / real_of_int (dpi s1);
          rect = (k * to_x s1 (x1 - 5 * pixel s1), k * to_y s1 (y1 - 10 * pixel s1),
                  k * to_x s1 (x2 + 5 * pixel s1), k * to_y s1 (y2 + 10 * pixel s1));
          (target, s2) =
             (if take 1 label = ''#''
              then let (i, s') = get_label_id (prepare_text label) s1 in (Dest i, s')
              else (URI (prepare_text label), s1))
      in s2\<lparr>annot_list := (annot_list s2)(annotId \<mapsto>
               \<lparr>an_preserve = preserve, an_rect = rect, an_target = target\<rparr>)\<rparr>)"

text \<open>
  The loop of \<^verbatim>\<open>flush_dests\<close> over the destinations: the entries of the dictionary
  written so far and the renderer (whose label table \<^verbatim>\<open>get_label_id\<close> may extend).
  A page that is not in \<^verbatim>\<open>page_id\<close> reads as 0.
\<close>

definition page_of :: "renderer \<Rightarrow> int \<Rightarrow> ObjectIDType" where
  "page_of s p = (case page_id s p of None \<Rightarrow> 0 | Some i \<Rightarrow> i)"

fun dest_entries ::
  "dest_data list \<Rightarrow> (int \<times> ObjectIDType \<times> real \<times> real) list \<Rightarrow> renderer
     \<Rightarrow> (int \<times> ObjectIDType \<times> real \<times> real) list \<times> renderer" where
  "dest_entries [] dict s = (dict, s)"
| "dest_entries ((label, dest_page, dest_x, dest_y) # it) dict s =
     (let (i, s1) = get_label_id label s
      in dest_entries it
           (dict @ [(i, page_of s1 dest_page,
                     72 / real_of_int (dpi s1) * real_of_int dest_x,
                     72 / real_of_int (dpi s1) * real_of_int dest_y)]) s1)"

definition flush_dests :: "renderer \<Rightarrow> renderer" where
  "flush_dests s =
     (if dests s = [] then s
      else
        let (dict, s1) = dest_entries (dests s) [] s;
            (i, s2) = AllocateNewObjectID s1
        in s2\<lparr>destId := i, objects := objects s2 @ [(i, DestsDict dict)]\<rparr>)"

subsection \<open>Outlines\<close>


definition x5 :: "outline_data \<Rightarrow> int" where
  "x5 d = snd (snd (snd (snd d)))"

text \<open>
  The dictionary of the current item; \<open>pg\<close> is \<^verbatim>\<open>page_id\<close> and \<open>sc\<close> the factor
  \<^verbatim>\<open>default_dpi / dpi\<close>.
\<close>

definition mk_item ::
  "(int \<Rightarrow> ObjectIDType) \<Rightarrow> real \<Rightarrow> outline_data \<Rightarrow> ObjectIDType \<Rightarrow> ObjectIDType \<Rightarrow> ObjectIDType
     \<Rightarrow> ObjectIDType \<Rightarrow> ObjectIDType \<Rightarrow> int \<Rightarrow> outline_item" where
  "mk_item pg sc oitem parentId prevId nextId subFirstId subLastId subCount =
     (case oitem of (title, p, x, y, l) \<Rightarrow>
        \<lparr>Title = prepare_text title, Parent = parentId,
         Prev = (if prevId \<noteq> 0 then Some prevId else None),
         Next = (if nextId \<noteq> 0 then Some nextId else None),
         First = (if subCount > 0 then Some subFirstId else None),
         Last = (if subCount > 0 then Some subLastId else None),
         Count = (if subCount > 0 then Some (- subCount) else None),
         DestPage = pg p, DestX = sc * real_of_int x, DestY = sc * real_of_int y\<rparr>)"

text \<open>
  The loop \<^verbatim>\<open>while (curId)\<close> of \<^verbatim>\<open>recurse\<close>, entered with the current item \<open>oitem\<close>
  already taken from the list and \<open>it\<close> the entries after it; \<open>curId\<close> is not 0, as
  every identifier of the registry. The arguments \<open>count\<close>, \<open>nid\<close> and \<open>out\<close> are
  the counter of the caller, the registry's last identifier and the objects written. The
  call of \<^verbatim>\<open>recurse\<close> for the deeper entries is written out: it allocates the first
  child's identifier and enters the loop with counter 0. The result is the list left,
  \<^verbatim>\<open>lastId\<close>, the counter, the last identifier and the objects.
\<close>

function outline_loop ::
  "(int \<Rightarrow> ObjectIDType) \<Rightarrow> real \<Rightarrow> outline_data \<Rightarrow> outline_data list \<Rightarrow> ObjectIDType
     \<Rightarrow> ObjectIDType \<Rightarrow> ObjectIDType \<Rightarrow> int \<Rightarrow> ObjectIDType \<Rightarrow> (ObjectIDType \<times> outline_item) list
     \<Rightarrow> outline_data list \<times> ObjectIDType \<times> int \<times> ObjectIDType \<times> (ObjectIDType \<times> outline_item) list" where
  "outline_loop pg sc oitem it parentId prevId curId count nid out =
     (case (if it \<noteq> [] \<and> x5 (hd it) > x5 oitem
            then (case outline_loop pg sc (hd it) (tl it) curId 0 (Suc nid) 0 (Suc nid) out of
                    (r, l, c, n, ou) \<Rightarrow> (r, Suc nid, l, c, n, ou))
            else (it, 0, 0, 0, nid, out)) of
        (it2, subFirstId, subLastId, subCount, nid2, out2) \<Rightarrow>
          if it2 \<noteq> [] \<and> x5 (hd it2) = x5 oitem
          then outline_loop pg sc (hd it2) (tl it2) parentId curId (Suc nid2) (count + 1) (Suc nid2)
                 (out2 @ [(curId, mk_item pg sc oitem parentId prevId (Suc nid2)
                                    subFirstId subLastId subCount)])
          else (it2, curId, count + 1, nid2,
                out2 @ [(curId, mk_item pg sc oitem parentId prevId 0
                                  subFirstId subLastId subCount)]))"
  by pat_completeness auto

termination
proof -
  have len: "outline_loop_dom (pg, sc, oitem, it, parentId, prevId, curId, count, nid, out) \<Longrightarrow>
      length (fst (outline_loop pg sc oitem it parentId prevId curId count nid out)) \<le> length it"
    for pg sc oitem it parentId prevId curId count nid out
  proof (induction pg sc oitem it parentId prevId curId count nid out rule: outline_loop.pinduct)
    case (1 pg sc oitem it parentId prevId curId count nid out)
    let ?nested = "outline_loop pg sc (hd it) (tl it) curId 0 (Suc nid) 0 (Suc nid) out"
    let ?c1 = "it \<noteq> [] \<and> x5 (hd it) > x5 oitem"
    let ?sub = "if ?c1 then (case ?nested of (r, l, c, n, ou) \<Rightarrow> (r, Suc nid, l, c, n, ou))
                else (it, 0, 0, 0, nid, out)"
    obtain it2 sf sl scn nid2 out2 where sub: "?sub = (it2, sf, sl, scn, nid2, out2)"
      by (cases ?sub) blast
    have l2: "length it2 \<le> length it"
    proof (cases ?c1)
      case True
      have "length (fst ?nested) \<le> length (tl it)" by (rule "1.IH"(1) [OF True])
      with sub True show ?thesis by (auto split: prod.splits)
    next
      case False
      with sub show ?thesis by simp
    qed
    show ?case
    proof (cases "it2 \<noteq> [] \<and> x5 (hd it2) = x5 oitem")
      case True
      have "length (fst (outline_loop pg sc (hd it2) (tl it2) parentId curId (Suc nid2) (count + 1)
               (Suc nid2) (out2 @ [(curId, mk_item pg sc oitem parentId prevId (Suc nid2) sf sl scn)])))
            \<le> length (tl it2)"
        by (rule "1.IH"(2) [OF sub [symmetric] refl refl refl refl True])
      with l2 True show ?thesis
        by (subst outline_loop.psimps [OF "1.hyps"]) (simp add: sub)
    next
      case False
      with l2 show ?thesis
        by (subst outline_loop.psimps [OF "1.hyps"]) (auto simp: sub)
    qed
  qed
  show ?thesis
  proof (relation "measure (\<lambda>(pg, sc, oitem, it, parentId, prevId, curId, count, nid, out). length it)",
      goal_cases)
    case 1
    show ?case by simp
  next
    case (2 pg sc oitem it parentId prevId curId count nid out)
    then show ?case by (cases it) auto
  next
    case (3 pg sc oitem it parentId prevId curId count nid out it2 y)
    have "length it2 \<le> length it"
      using 3 len [of pg sc "hd it" "tl it" curId 0 "Suc nid" 0 "Suc nid" out]
      by (auto split: if_splits prod.splits)
    with 3 show ?case by (cases it2) auto
  qed
qed

declare outline_loop.simps [simp del]

text \<open>
  \<^verbatim>\<open>recurse\<close>: the identifier of the first item is allocated when the list is not nil,
  and the loop runs while \<^verbatim>\<open>curId\<close> is not 0. The result is the list left,
  \<^verbatim>\<open>firstId\<close>, \<^verbatim>\<open>lastId\<close>, the counter, the last identifier and the objects.
\<close>

definition recurse ::
  "(int \<Rightarrow> ObjectIDType) \<Rightarrow> real \<Rightarrow> outline_data list \<Rightarrow> ObjectIDType \<Rightarrow> int \<Rightarrow> ObjectIDType
     \<Rightarrow> (ObjectIDType \<times> outline_item) list
     \<Rightarrow> outline_data list \<times> ObjectIDType \<times> ObjectIDType \<times> int \<times> ObjectIDType
          \<times> (ObjectIDType \<times> outline_item) list" where
  "recurse pg sc it parentId count nid out =
     (if it \<noteq> []
      then (case outline_loop pg sc (hd it) (tl it) parentId 0 (Suc nid) count (Suc nid) out of
              (r, l, c, n, ou) \<Rightarrow> (r, Suc nid, l, c, n, ou))
      else (it, 0, 0, count, nid, out))"


subsection \<open>The constructor\<close>

text \<open>
  The members that the initialiser list of the constructor sets, before it calls
  \<^verbatim>\<open>begin_page\<close>. \<^verbatim>\<open>pixel\<close> belongs to the base class and is a parameter; the members
  that the constructor leaves unset are 0 here (\<^verbatim>\<open>begin_page\<close> and \<^verbatim>\<open>begin_text\<close> set most
  of them before they are read).
\<close>

definition new_renderer :: "int \<Rightarrow> int \<Rightarrow> real \<Rightarrow> real \<Rightarrow> renderer" where
  "new_renderer px dpi2 paper_w2 paper_h2 =
     \<lparr>pixel = px, ox = 0, oy = 0, dpi = dpi2, paper_w = paper_w2, paper_h = paper_h2,
      page_num = 0, inText = False, alpha = 0,
      stroke_rgb = (- 1, - 1, - 1), fill_rgb = (- 1, - 1, - 1),
      fg = - 1, bg = - 1, lw = - 1, current_width = 0, clip_level = 0,
      pen = \<lparr>get_color = 0, get_width = 0\<rparr>,
      cfn = [], cfid = None, fsize = 0, prev_text_x = 0, prev_text_y = 0,
      drawn_glyphs = [], pdf_fonts = Map.empty, t3font_list = Map.empty,
      image_pool = Map.empty, alpha_id = Map.empty, page_id = Map.empty,
      annot_list = Map.empty, dests = [], destId = 0,
      label_id = Map.empty, label_count = 0,
      outlineId = 0, outlines = [], next_id = 0, content = [], pages = [], objects = [],
      diag = []\<rparr>"

definition pdf_hummus_renderer_rep ::
  "(int \<Rightarrow> SI \<Rightarrow> SI \<Rightarrow> SI \<times> SI \<times> SI \<times> SI \<Rightarrow> SI \<times> SI \<times> SI \<times> SI) \<Rightarrow> int \<Rightarrow> int \<Rightarrow> real \<Rightarrow> real
     \<Rightarrow> renderer" where
  "pdf_hummus_renderer_rep ornd px dpi2 paper_w2 paper_h2 =
     begin_page ornd (new_renderer px dpi2 paper_w2 paper_h2)"

subsection \<open>Predicates of the statements\<close>

text \<open>The operators of a text object, as \<^verbatim>\<open>begin_text\<close>, \<^verbatim>\<open>draw_glyphs\<close> and \<^verbatim>\<open>end_text\<close> write them.\<close>

fun is_text_op :: "token \<Rightarrow> bool" where
  "is_text_op Op_BT = True"
| "is_text_op Op_ET = True"
| "is_text_op (Op_Tm a b c d e f) = True"
| "is_text_op (Op_Td x y) = True"
| "is_text_op (Op_TJ xs) = True"
| "is_text_op _ = False"

text \<open>
  Glyphs are pending only inside a text object: \<^verbatim>\<open>draw\<close> calls \<^verbatim>\<open>begin_text\<close> before it
  appends to \<^verbatim>\<open>drawn_glyphs\<close>, and \<^verbatim>\<open>inText\<close> is reset only by \<^verbatim>\<open>end_text\<close> after the
  glyphs are written, and by \<^verbatim>\<open>begin_page\<close>.
\<close>

definition pending_in_text :: "renderer \<Rightarrow> bool" where
  "pending_in_text s = (drawn_glyphs s \<noteq> [] \<longrightarrow> inText s)"

text \<open>
  A call of \<^verbatim>\<open>set_clipping\<close>: with \<^verbatim>\<open>restore\<close> false (a rectangle is pushed) or true.
  \<open>clip_calls\<close> makes the calls of a list in order; \<open>page_with_clips\<close> is a whole page
  on which only these calls are made, from \<^verbatim>\<open>begin_page\<close> to \<^verbatim>\<open>end_page\<close>.
\<close>

datatype clip_call = Push SI SI SI SI | Restore SI SI SI SI

fun clip_calls ::
  "(int \<Rightarrow> SI \<Rightarrow> SI \<Rightarrow> SI \<times> SI \<times> SI \<times> SI \<Rightarrow> SI \<times> SI \<times> SI \<times> SI) \<Rightarrow> clip_call list \<Rightarrow> renderer \<Rightarrow> renderer" where
  "clip_calls ornd [] s = s"
| "clip_calls ornd (Push x1 y1 x2 y2 # cs) s = clip_calls ornd cs (set_clipping ornd x1 y1 x2 y2 False s)"
| "clip_calls ornd (Restore x1 y1 x2 y2 # cs) s = clip_calls ornd cs (set_clipping ornd x1 y1 x2 y2 True s)"

definition page_with_clips ::
  "(int \<Rightarrow> SI \<Rightarrow> SI \<Rightarrow> SI \<times> SI \<times> SI \<times> SI \<Rightarrow> SI \<times> SI \<times> SI \<times> SI) \<Rightarrow> clip_call list \<Rightarrow> renderer
     \<Rightarrow> renderer option" where
  "page_with_clips ornd cs s = end_page (clip_calls ornd cs (begin_page ornd s))"

text \<open>The nesting depth that a content stream leaves: the \<^verbatim>\<open>q\<close> minus the \<^verbatim>\<open>Q\<close>.\<close>

definition q_depth :: "token list \<Rightarrow> int" where
  "q_depth ts = int (count_list ts Op_q) - int (count_list ts Op_Q)"

text \<open>
  \<open>matched lvl cs\<close>: started at clip level \<open>lvl\<close>, no call of \<open>cs\<close> restores at
  level 0.
\<close>

fun matched :: "int \<Rightarrow> clip_call list \<Rightarrow> bool" where
  "matched lvl [] = True"
| "matched lvl (Push x1 y1 x2 y2 # cs) = matched (lvl + 1) cs"
| "matched lvl (Restore x1 y1 x2 y2 # cs) = (lvl > 0 \<and> matched (lvl - 1) cs)"

text \<open>
  The arguments of one call of \<^verbatim>\<open>image\<close> (the url first), a list of such calls made in
  order, and the condition on the image pool that the registry guarantees: the
  identifiers in the pool have been handed out already, and no two keys share one.
\<close>

type_synonym image_call = "string \<times> SI \<times> SI \<times> SI \<times> SI \<times> real \<times> real \<times> real \<times> real \<times> int"

fun place_images :: "image_call list \<Rightarrow> renderer \<Rightarrow> renderer" where
  "place_images [] s = s"
| "place_images ((u, w, h, x, y, cx1, cy1, cx2, cy2, a) # cs) s =
     place_images cs (image_pdf u w h x y cx1 cy1 cx2 cy2 a s)"

definition pool_ok :: "renderer \<Rightarrow> bool" where
  "pool_ok s =
     ((\<forall>u i. image_pool s u = Some i \<longrightarrow> i \<le> next_id s)
      \<and> (\<forall>u v i. image_pool s u = Some i \<and> image_pool s v = Some i \<longrightarrow> u = v))"

text \<open>
  \<open>label_refs ls\<close>: the labels of \<open>ls\<close> are referred to in order (each reference is a
  call of \<^verbatim>\<open>get_label_id\<close>, from \<^verbatim>\<open>href\<close> or from \<^verbatim>\<open>flush_dests\<close>). \<open>first_uses ls\<close>:
  the labels of \<open>ls\<close> without repetition, in the order of their first occurrence.
\<close>

fun label_refs :: "string list \<Rightarrow> renderer \<Rightarrow> renderer" where
  "label_refs [] s = s"
| "label_refs (l # ls) s = label_refs ls (snd (get_label_id l s))"

definition add_new :: "'a list \<Rightarrow> 'a \<Rightarrow> 'a list" where
  "add_new ks l = (if l \<in> set ks then ks else ks @ [l])"

definition first_uses :: "'a list \<Rightarrow> 'a list" where
  "first_uses ls = foldl add_new [] ls"

text \<open>
  \<open>labels_are s ks\<close>: the label table of \<open>s\<close> holds exactly the labels of \<open>ks\<close>, the
  label at position \<open>i\<close> with identifier \<open>i\<close>, and \<^verbatim>\<open>label_count\<close> is their number.
\<close>

definition labels_are :: "renderer \<Rightarrow> string list \<Rightarrow> bool" where
  "labels_are s ks =
     (distinct ks \<and> label_count s = int (length ks) \<and> dom (label_id s) = set ks
      \<and> (\<forall>i < length ks. label_id s (ks ! i) = Some (int i)))"

text \<open>The label identifiers of the entries of a destinations dictionary, in order.\<close>

fun dest_ids :: "pdf_object \<Rightarrow> int list" where
  "dest_ids (DestsDict ds) = map fst ds"
| "dest_ids ob = []"











text \<open>
  \<open>y_changes gs\<close>: the number of glyphs of \<open>gs\<close> whose vertical position differs from
  that of the glyph before. \<open>is_TJ\<close>: the operator that shows one run.
\<close>

fun y_changes :: "drawn_glyph list \<Rightarrow> nat" where
  "y_changes ((x, y, c, g) # (x', y', c', g') # gs) =
     (if y' \<noteq> y then 1 else 0) + y_changes ((x', y', c', g') # gs)"
| "y_changes _ = 0"

fun is_TJ :: "token \<Rightarrow> bool" where
  "is_TJ (Op_TJ items) = True"
| "is_TJ _ = False"

text \<open>
  The glyph runs as the amended claim C3 describes them.
  \<^item> \<open>glyph_code\<close>: what \<^verbatim>\<open>TJ\<close> shows of a pending glyph, its index and character code.
  \<^item> \<open>tracked px fs nxt gs\<close>: the glyphs \<open>gs\<close> that follow on the baseline of a run, when
    \<open>nxt\<close> is the position that the pen tracked so far predicts for the next glyph. The
    deviation \<open>dx\<close> of a glyph is its position minus \<open>nxt\<close>. At 4 pixels or more in either
    direction the correction is written before the glyph and the pen follows the glyph:
    the next prediction is the glyph's own position plus its advance. Below 4 pixels
    nothing is written for the deviation and it is taken as zero: the next prediction is
    \<open>nxt\<close> plus the advance.
  \<^item> \<open>pieces\<close>: the list given to \<^verbatim>\<open>TJ\<close>, in which glyphs with no correction between them
    form one piece.
  \<^item> \<open>on_line y\<close>: a pending glyph at the vertical position \<open>y\<close>.
  \<^item> \<open>show_runs\<close>: one \<^verbatim>\<open>Td\<close> to the first glyph and one \<^verbatim>\<open>TJ\<close> for each run, a run being
    a glyph with the glyphs that follow it at its vertical position.
  \<^item> \<open>shown\<close>: the glyphs that the operators \<^verbatim>\<open>TJ\<close> of a list show, in order.
\<close>

fun glyph_code :: "drawn_glyph \<Rightarrow> int \<times> int" where
  "glyph_code (x, y, c, g) = (index g, c)"

fun tracked :: "int \<Rightarrow> real \<Rightarrow> SI \<Rightarrow> drawn_glyph list \<Rightarrow> (double + int \<times> int) list" where
  "tracked px fs nxt [] = []"
| "tracked px fs nxt ((x, y, c, g) # gs) =
     (let dx = x - nxt
      in if dx \<ge> 4 * px \<or> dx \<le> - 4 * px
         then Inl (correction px fs dx) # Inr (index g, c) # tracked px fs (x + lwidth g * px) gs
         else Inr (index g, c) # tracked px fs (nxt + lwidth g * px) gs)"

fun pieces :: "(double + int \<times> int) list \<Rightarrow> tj_item list" where
  "pieces [] = []"
| "pieces (Inl d # es) = Spacing d # pieces es"
| "pieces (Inr g # es) =
     (case pieces es of
        GlyphList l # its \<Rightarrow> GlyphList (g # l) # its
      | its \<Rightarrow> GlyphList [g] # its)"

fun on_line :: "SI \<Rightarrow> drawn_glyph \<Rightarrow> bool" where
  "on_line y (x', y', c', g') = (y' = y)"

function show_runs :: "int \<Rightarrow> real \<Rightarrow> real \<Rightarrow> real \<Rightarrow> drawn_glyph list \<Rightarrow> token list" where
  "show_runs px fs ptx pty [] = []"
| "show_runs px fs ptx pty ((x, y, c, g) # gs) =
     Op_Td (real_of_int (x sdiv px) - ptx) (real_of_int (y sdiv px) - pty)
       # Op_TJ (pieces (Inr (index g, c) # tracked px fs (x + lwidth g * px) (takeWhile (on_line y) gs)))
       # show_runs px fs (real_of_int (x sdiv px)) (real_of_int (y sdiv px)) (dropWhile (on_line y) gs)"
  by pat_completeness auto
termination
  by (relation "measure (\<lambda>(px, fs, ptx, pty, gs). length gs)")
     (auto simp: length_dropWhile_le intro: le_imp_less_Suc)

fun glyphs_of :: "tj_item list \<Rightarrow> (int \<times> int) list" where
  "glyphs_of [] = []"
| "glyphs_of (GlyphList l # its) = l @ glyphs_of its"
| "glyphs_of (Spacing d # its) = glyphs_of its"

fun shown :: "token list \<Rightarrow> (int \<times> int) list" where
  "shown [] = []"
| "shown (Op_TJ its # ts) = glyphs_of its @ shown ts"
| "shown (t # ts) = shown ts"

text \<open>
  What is pending in a renderer: \<open>pending_runs\<close>, the operators of the runs of the pending
  glyphs, from the last text position; \<open>pending_text\<close>, what closes the open text object:
  these operators and \<^verbatim>\<open>ET\<close>.
\<close>

definition pending_runs :: "renderer \<Rightarrow> token list" where
  "pending_runs s =
     fst (glyph_runs (pixel s) (fsize s) (prev_text_x s) (prev_text_y s) (drawn_glyphs s))"

definition pending_text :: "renderer \<Rightarrow> token list" where
  "pending_text s = (if inText s then pending_runs s @ [Op_ET] else [])"

text \<open>
  \<open>flushed_first s s'\<close>: the content of \<open>s'\<close> is the content of \<open>s\<close>, then what was
  pending in \<open>s\<close> (the runs of the pending glyphs and \<^verbatim>\<open>ET\<close>), then operators that are
  not text operators; and no glyph is pending in \<open>s'\<close>.
\<close>

definition flushed_first :: "renderer \<Rightarrow> renderer \<Rightarrow> bool" where
  "flushed_first s s' =
     (\<exists>ts. content s' = content s @ pending_text s @ ts \<and> (\<forall>t \<in> set ts. \<not> is_text_op t)
        \<and> drawn_glyphs s' = [])"










text \<open>
  The lists of levels for which the amended claim C2 speaks: every entry after the first
  is deeper than the entry before it (it becomes its child), or it has the level of an
  earlier entry and only deeper entries lie between the two (it becomes the next sibling
  of that entry).
\<close>

definition ok_level :: "int list \<Rightarrow> nat \<Rightarrow> bool" where
  "ok_level ls k =
     (ls ! (k - 1) < ls ! k \<or> (\<exists>j<k. ls ! j = ls ! k \<and> (\<forall>i<k. j < i \<longrightarrow> ls ! k < ls ! i)))"

definition well_nested :: "int list \<Rightarrow> bool" where
  "well_nested ls = (\<forall>k<length ls. 0 < k \<longrightarrow> ok_level ls k)"


subsection \<open>Example inputs\<close>

text \<open>
  A renderer as the constructor leaves it (600 dpi, A4 paper in centimetres, 256 units to
  the pixel, an \<^verbatim>\<open>outer_round\<close> that finds the rectangle already rounded), a glyph, a
  font \<open>cmr10\<close> that has this glyph at code 65, and the renderer after that character is
  drawn, when the font search returns the handle 9 and \<^verbatim>\<open>font_size\<close> returns 0, as it
  does for a name like \<open>cmr10\<close> in which it reads no resolution.
\<close>

definition no_round :: "int \<Rightarrow> SI \<Rightarrow> SI \<Rightarrow> SI \<times> SI \<times> SI \<times> SI \<Rightarrow> SI \<times> SI \<times> SI \<times> SI" where
  "no_round px x0 y0 r = r"

definition page0 :: renderer where
  "page0 = pdf_hummus_renderer_rep no_round 256 600 21 29.7"

definition glyphA :: glyph where
  "glyphA = \<lparr>width = 5, height = 7, xoff = 0, yoff = 0, lwidth = 5, index = 36\<rparr>"

definition fontA :: font_glyphs where
  "fontA = \<lparr>res_name = ''cmr10'', get = (\<lambda>c. if c = 65 then Some glyphA else None)\<rparr>"

definition found_9 :: "string \<Rightarrow> found_font" where
  "found_9 name = Font 9"

definition no_resolution :: "string \<Rightarrow> real" where
  "no_resolution name = 0"

definition page0_A :: "renderer option" where
  "page0_A = draw found_9 no_resolution 65 fontA 0 0 page0"

text \<open>A \<^verbatim>\<open>get_rgb_color\<close> for which every colour is opaque black.\<close>

definition black :: "color \<Rightarrow> int \<times> int \<times> int \<times> int" where
  "black c = (0, 0, 0, 255)"

text \<open>
  A font with the glyph \<open>glyphA\<close> at every code, and the Type 3 font made for it by
  \<^verbatim>\<open>draw\<close> (identifier 4) after the characters 70, 65 and 66 have been drawn in that
  order.
\<close>

definition fontB :: font_glyphs where
  "fontB = \<lparr>res_name = ''pk10'', get = (\<lambda>c. Some glyphA)\<rparr>"

definition t3B :: t3font where
  "t3B = add_glyph 66 (add_glyph 65 (add_glyph 70 (new_t3font fontB 4)))"



section \<open>Properties\<close>

subsection \<open>What the text functions keep and what they append\<close>

lemma emit_simps [simp]:
  "content (emit ts s) = content s @ ts"
  "pixel (emit ts s) = pixel s" "ox (emit ts s) = ox s" "oy (emit ts s) = oy s"
  "inText (emit ts s) = inText s" "drawn_glyphs (emit ts s) = drawn_glyphs s"
  "clip_level (emit ts s) = clip_level s" "fg (emit ts s) = fg s" "bg (emit ts s) = bg s"
  "next_id (emit ts s) = next_id s" "image_pool (emit ts s) = image_pool s"
  by (simp_all add: emit_def)

lemma to_x_cong: "pixel s' = pixel s \<Longrightarrow> ox s' = ox s \<Longrightarrow> to_x s' = to_x s"
  by (rule ext) (simp add: to_x_def Let_def)

lemma to_y_cong: "pixel s' = pixel s \<Longrightarrow> oy s' = oy s \<Longrightarrow> to_y s' = to_y s"
  by (rule ext) (simp add: to_y_def Let_def)

lemma begin_text_simps [simp]:
  "pixel (begin_text s) = pixel s" "ox (begin_text s) = ox s" "oy (begin_text s) = oy s"
  "inText (begin_text s) = True" "drawn_glyphs (begin_text s) = drawn_glyphs s"
  "clip_level (begin_text s) = clip_level s" "fg (begin_text s) = fg s" "bg (begin_text s) = bg s"
  "next_id (begin_text s) = next_id s" "image_pool (begin_text s) = image_pool s"
  by (simp_all add: begin_text_def)

lemma begin_text_content: "\<exists>ts. content (begin_text s) = content s @ ts"
  by (simp add: begin_text_def)

lemma draw_glyphs_simps [simp]:
  "pixel (draw_glyphs s) = pixel s" "ox (draw_glyphs s) = ox s" "oy (draw_glyphs s) = oy s"
  "drawn_glyphs (draw_glyphs s) = []"
  "clip_level (draw_glyphs s) = clip_level s" "fg (draw_glyphs s) = fg s" "bg (draw_glyphs s) = bg s"
  "next_id (draw_glyphs s) = next_id s" "image_pool (draw_glyphs s) = image_pool s"
  by (simp_all add: draw_glyphs_def Let_def split: prod.splits)

lemma draw_glyphs_inText: "drawn_glyphs s \<noteq> [] \<or> inText s \<Longrightarrow> inText (draw_glyphs s)"
  by (auto simp: draw_glyphs_def Let_def split: prod.splits)

lemma draw_glyphs_nothing_pending: "drawn_glyphs s = [] \<Longrightarrow> draw_glyphs s = s"
  by (simp add: draw_glyphs_def)

lemma draw_glyphs_content: "\<exists>ts. content (draw_glyphs s) = content s @ ts"
  using begin_text_content [of s]
  by (auto simp: draw_glyphs_def Let_def split: prod.splits)

lemma end_text_simps [simp]:
  "pixel (end_text s) = pixel s" "ox (end_text s) = ox s" "oy (end_text s) = oy s"
  "inText (end_text s) = False"
  "clip_level (end_text s) = clip_level s" "fg (end_text s) = fg s" "bg (end_text s) = bg s"
  "next_id (end_text s) = next_id s" "image_pool (end_text s) = image_pool s"
  by (simp_all add: end_text_def)

lemma end_text_geom [simp]: "to_x (end_text s) = to_x s" "to_y (end_text s) = to_y s"
  by (rule to_x_cong to_y_cong; simp)+

lemma end_text_content: "\<exists>ts. content (end_text s) = content s @ ts"
  using draw_glyphs_content [of s] by (auto simp: end_text_def)

lemma end_text_outside_text: "\<not> inText s \<Longrightarrow> end_text s = s"
  by (simp add: end_text_def)

lemma end_text_flushes: "pending_in_text s \<Longrightarrow> drawn_glyphs (end_text s) = []"
  by (auto simp: end_text_def pending_in_text_def)

lemma select_alpha_simps [simp]:
  "pixel (select_alpha a s) = pixel s" "ox (select_alpha a s) = ox s" "oy (select_alpha a s) = oy s"
  "inText (select_alpha a s) = inText s" "drawn_glyphs (select_alpha a s) = drawn_glyphs s"
  "clip_level (select_alpha a s) = clip_level s" "fg (select_alpha a s) = fg s"
  "bg (select_alpha a s) = bg s" "image_pool (select_alpha a s) = image_pool s"
  by (simp_all add: select_alpha_def AllocateNewObjectID_def Let_def)

lemma select_alpha_content: "\<exists>ts. content (select_alpha a s) = content s @ ts"
  by (simp add: select_alpha_def AllocateNewObjectID_def Let_def)

lemma select_fill_color_simps [simp]:
  "pixel (select_fill_color grc c s) = pixel s" "ox (select_fill_color grc c s) = ox s"
  "oy (select_fill_color grc c s) = oy s" "inText (select_fill_color grc c s) = inText s"
  "drawn_glyphs (select_fill_color grc c s) = drawn_glyphs s"
  "clip_level (select_fill_color grc c s) = clip_level s"
  "fg (select_fill_color grc c s) = fg s" "bg (select_fill_color grc c s) = bg s"
  "image_pool (select_fill_color grc c s) = image_pool s"
  by (simp_all add: select_fill_color_def Let_def split: prod.splits)

lemma select_fill_color_content: "\<exists>ts. content (select_fill_color grc c s) = content s @ ts"
proof -
  obtain r0 g0 b0 a0 where c: "grc c = (r0, g0, b0, a0)" by (cases "grc c") auto
  let ?c1 = "((r0 * 1000) sdiv 255, (g0 * 1000) sdiv 255, (b0 * 1000) sdiv 255)"
  let ?a = "(a0 * 1000) sdiv 255"
  show ?thesis
  proof (cases "fill_rgb s = ?c1")
    case True
    then have "select_fill_color grc c s = select_alpha ?a s"
      by (simp add: select_fill_color_def Let_def c)
    then show ?thesis using select_alpha_content [of ?a s] by simp
  next
    case False
    let ?s1 = "(emit [Op_rg (real_of_int ((r0 * 1000) sdiv 255) / 1000)
                  (real_of_int ((g0 * 1000) sdiv 255) / 1000)
                  (real_of_int ((b0 * 1000) sdiv 255) / 1000)] s)\<lparr>fill_rgb := ?c1\<rparr>"
    from False have "select_fill_color grc c s = select_alpha ?a ?s1"
      by (simp add: select_fill_color_def Let_def c)
    moreover obtain ts where "content (select_alpha ?a ?s1) = content ?s1 @ ts"
      using select_alpha_content by blast
    ultimately show ?thesis by simp
  qed
qed

lemma select_stroke_color_simps [simp]:
  "pixel (select_stroke_color grc c s) = pixel s" "ox (select_stroke_color grc c s) = ox s"
  "oy (select_stroke_color grc c s) = oy s" "inText (select_stroke_color grc c s) = inText s"
  "drawn_glyphs (select_stroke_color grc c s) = drawn_glyphs s"
  "clip_level (select_stroke_color grc c s) = clip_level s"
  "fg (select_stroke_color grc c s) = fg s" "bg (select_stroke_color grc c s) = bg s"
  "image_pool (select_stroke_color grc c s) = image_pool s"
  by (simp_all add: select_stroke_color_def Let_def split: prod.splits)

lemma select_stroke_color_content: "\<exists>ts. content (select_stroke_color grc c s) = content s @ ts"
proof -
  obtain r0 g0 b0 a0 where c: "grc c = (r0, g0, b0, a0)" by (cases "grc c") auto
  let ?c1 = "((r0 * 1000) sdiv 255, (g0 * 1000) sdiv 255, (b0 * 1000) sdiv 255)"
  let ?a = "(a0 * 1000) sdiv 255"
  show ?thesis
  proof (cases "stroke_rgb s = ?c1")
    case True
    then have "select_stroke_color grc c s = select_alpha ?a s"
      by (simp add: select_stroke_color_def Let_def c)
    then show ?thesis using select_alpha_content [of ?a s] by simp
  next
    case False
    let ?s1 = "(emit [Op_RG (real_of_int ((r0 * 1000) sdiv 255) / 1000)
                  (real_of_int ((g0 * 1000) sdiv 255) / 1000)
                  (real_of_int ((b0 * 1000) sdiv 255) / 1000)] s)\<lparr>stroke_rgb := ?c1\<rparr>"
    from False have "select_stroke_color grc c s = select_alpha ?a ?s1"
      by (simp add: select_stroke_color_def Let_def c)
    moreover obtain ts where "content (select_alpha ?a ?s1) = content ?s1 @ ts"
      using select_alpha_content by blast
    ultimately show ?thesis by simp
  qed
qed

subsection \<open>Filled rectangles\<close>

lemma clear_content:
  "\<exists>pre post. content (clear grc x1 y1 x2 y2 s) =
     content (end_text s) @ [Op_q] @ pre
       @ [Op_re (to_x s (min x1 x2)) (to_y s (min y1 y2))
            (to_x s (max x1 x2) - to_x s (min x1 x2)) (to_y s (max y1 y2) - to_y s (min y1 y2)),
          Op_h, Op_f]
       @ post @ [Op_Q]"
proof -
  let ?s2 = "emit [Op_q] (end_text s)"
  let ?re = "[Op_re (to_x s (min x1 x2)) (to_y s (min y1 y2))
            (to_x s (max x1 x2) - to_x s (min x1 x2)) (to_y s (max y1 y2) - to_y s (min y1 y2)),
          Op_h, Op_f]"
  obtain pre where pre: "content (select_fill_color grc (bg ?s2) ?s2) = content ?s2 @ pre"
    using select_fill_color_content by blast
  let ?s4 = "emit ?re (select_fill_color grc (bg ?s2) ?s2)"
  obtain post where post: "content (select_fill_color grc (fg ?s4) ?s4) = content ?s4 @ post"
    using select_fill_color_content by blast
  have "content (clear grc x1 y1 x2 y2 s) = content (end_text s) @ [Op_q] @ pre @ ?re @ post @ [Op_Q]"
    using pre post by (simp add: clear_def Let_def)
  then show ?thesis by blast
qed

text \<open>
  Claim C10. \<^verbatim>\<open>fill\<close> writes its rectangle only when \<open>x1 < x2\<close> and \<open>y1 < y2\<close>: then the
  page content is that after \<^verbatim>\<open>end_text\<close> followed by \<^verbatim>\<open>re\<close>, \<^verbatim>\<open>h\<close>, \<^verbatim>\<open>f\<close>. With
  \<open>x1 \<ge> x2\<close> or \<open>y1 \<ge> y2\<close> (a rectangle of width or height zero included) the call
  returns the renderer as it was, every member unchanged and nothing written. \<^verbatim>\<open>clear\<close>
  has no such test: for all coordinates it writes \<^verbatim>\<open>q\<close>, the rectangle with \<^verbatim>\<open>h\<close> and
  \<^verbatim>\<open>f\<close>, and \<^verbatim>\<open>Q\<close>.
\<close>

theorem fill_only_proper_rectangles:
  "(x1 < x2 \<and> y1 < y2 \<longrightarrow>
      content (fill x1 y1 x2 y2 s) =
        content (end_text s)
          @ [Op_re (to_x s (min x1 x2)) (to_y s (min y1 y2))
               (to_x s (max x1 x2) - to_x s (min x1 x2)) (to_y s (max y1 y2) - to_y s (min y1 y2)),
             Op_h, Op_f])
   \<and> (x1 \<ge> x2 \<or> y1 \<ge> y2 \<longrightarrow> fill x1 y1 x2 y2 s = s)
   \<and> (\<exists>pre post. content (clear grc x1 y1 x2 y2 s) =
        content (end_text s) @ [Op_q] @ pre
          @ [Op_re (to_x s (min x1 x2)) (to_y s (min y1 y2))
               (to_x s (max x1 x2) - to_x s (min x1 x2)) (to_y s (max y1 y2) - to_y s (min y1 y2)),
             Op_h, Op_f]
          @ post @ [Op_Q])"
proof (intro conjI impI)
  assume "x1 < x2 \<and> y1 < y2"
  then show "content (fill x1 y1 x2 y2 s) =
        content (end_text s)
          @ [Op_re (to_x s (min x1 x2)) (to_y s (min y1 y2))
               (to_x s (max x1 x2) - to_x s (min x1 x2)) (to_y s (max y1 y2) - to_y s (min y1 y2)),
             Op_h, Op_f]"
    by (simp add: fill_def Let_def)
next
  assume "x1 \<ge> x2 \<or> y1 \<ge> y2"
  then show "fill x1 y1 x2 y2 s = s" by (auto simp: fill_def)
next
  show "\<exists>pre post. content (clear grc x1 y1 x2 y2 s) =
        content (end_text s) @ [Op_q] @ pre
          @ [Op_re (to_x s (min x1 x2)) (to_y s (min y1 y2))
               (to_x s (max x1 x2) - to_x s (min x1 x2)) (to_y s (max y1 y2) - to_y s (min y1 y2)),
             Op_h, Op_f]
          @ post @ [Op_Q]"
    by (rule clear_content)
qed

theorem fill_only_proper_rectangles_witness:
  "content (fill 0 0 512 256 (new_renderer 256 600 21 29.7)) = [Op_re 0 0 2 1, Op_h, Op_f]
   \<and> fill 0 0 0 256 (new_renderer 256 600 21 29.7) = new_renderer 256 600 21 29.7
   \<and> fill 0 256 512 256 (new_renderer 256 600 21 29.7) = new_renderer 256 600 21 29.7"
proof -
  have nt: "end_text (new_renderer 256 600 21 29.7) = new_renderer 256 600 21 29.7"
    by (simp add: end_text_def new_renderer_def)
  have c: "content (new_renderer 256 600 21 29.7) = []"
    by (simp add: new_renderer_def)
  have x: "to_x (new_renderer 256 600 21 29.7) 0 = 0" "to_x (new_renderer 256 600 21 29.7) 512 = 2"
    "to_y (new_renderer 256 600 21 29.7) 0 = 0" "to_y (new_renderer 256 600 21 29.7) 256 = 1"
    by (simp_all add: to_x_def to_y_def new_renderer_def signed_divide_int_def)
  show ?thesis
    using fill_only_proper_rectangles [of 0 512 0 256 "new_renderer 256 600 21 29.7"]
      fill_only_proper_rectangles [of 0 0 0 256 "new_renderer 256 600 21 29.7"]
      fill_only_proper_rectangles [of 0 512 256 256 "new_renderer 256 600 21 29.7"]
    by (simp add: nt c x)
qed


subsection \<open>The operators that the text functions write\<close>

lemma glyph_runs_text_ops: "\<forall>t \<in> set (fst (glyph_runs px fs ptx pty gs)). is_text_op t"
  by (induction px fs ptx pty gs rule: glyph_runs.induct) (auto simp: Let_def split: prod.splits)

lemma begin_text_text_ops:
  "\<exists>ts. content (begin_text s) = content s @ ts \<and> (\<forall>t \<in> set ts. is_text_op t)"
  by (simp add: begin_text_def)

lemma draw_glyphs_text_ops:
  "\<exists>ts. content (draw_glyphs s) = content s @ ts \<and> (\<forall>t \<in> set ts. is_text_op t)"
proof (cases "drawn_glyphs s = []")
  case True
  then show ?thesis by (simp add: draw_glyphs_def)
next
  case False
  obtain ts1 where ts1: "content (begin_text s) = content s @ ts1" "\<forall>t \<in> set ts1. is_text_op t"
    using begin_text_text_ops by blast
  let ?s1 = "begin_text s"
  let ?r = "glyph_runs (pixel ?s1) (fsize ?s1) (prev_text_x ?s1) (prev_text_y ?s1) (drawn_glyphs ?s1)"
  have "content (draw_glyphs s) = content s @ (ts1 @ fst ?r)"
    using False ts1(1) by (simp add: draw_glyphs_def Let_def split: prod.splits)
  moreover have "\<forall>t \<in> set (ts1 @ fst ?r). is_text_op t"
    using ts1(2) glyph_runs_text_ops [of "pixel ?s1" "fsize ?s1" "prev_text_x ?s1" "prev_text_y ?s1"
        "drawn_glyphs ?s1"]
    by auto
  ultimately show ?thesis by blast
qed

lemma end_text_text_ops:
  "\<exists>ts. content (end_text s) = content s @ ts \<and> (\<forall>t \<in> set ts. is_text_op t)"
proof (cases "inText s")
  case False
  then show ?thesis by (simp add: end_text_def)
next
  case True
  obtain ts where ts: "content (draw_glyphs s) = content s @ ts" "\<forall>t \<in> set ts. is_text_op t"
    using draw_glyphs_text_ops by blast
  have "content (end_text s) = content s @ (ts @ [Op_ET])"
    using True ts(1) by (simp add: end_text_def)
  moreover have "\<forall>t \<in> set (ts @ [Op_ET]). is_text_op t" using ts(2) by simp
  ultimately show ?thesis by blast
qed

subsection \<open>The example renderers\<close>

lemma page0_eq:
  "page0 = (new_renderer 256 600 21 29.7)
     \<lparr>alpha := 255, current_width := - 1, clip_level := 1, oy := 1796031,
      content := [Op_q, Op_cm (3 / 25) 0 0 (3 / 25) 0 0, Op_q, Op_re 0 0 4960 7015, Op_W, Op_n]\<rparr>"
  by (simp add: page0_def pdf_hummus_renderer_rep_def begin_page_def new_renderer_def Let_def
      set_clipping_def end_text_def emit_def to_x_def to_y_def no_round_def
      trunc_def floor_eq_iff ceiling_eq_iff signed_divide_int_def)

lemma page0_fields:
  "content page0 = [Op_q, Op_cm (3 / 25) 0 0 (3 / 25) 0 0, Op_q, Op_re 0 0 4960 7015, Op_W, Op_n]"
  "clip_level page0 = 1" "inText page0 = False" "drawn_glyphs page0 = []" "fg page0 = - 1"
  "current_width page0 = - 1" "pixel page0 = 256" "ox page0 = 0" "oy page0 = 1796031"
  "cfn page0 = []" "pdf_fonts page0 = Map.empty" "t3font_list page0 = Map.empty"
  "image_pool page0 = Map.empty" "label_id page0 = Map.empty" "label_count page0 = 0"
  "next_id page0 = 0" "dpi page0 = 600" "page_num page0 = 0" "diag page0 = []"
  by (simp_all add: page0_eq new_renderer_def)

lemma page0_A_fields:
  "\<exists>s. page0_A = Some s \<and> drawn_glyphs s = [(0, 1796031, 65, glyphA)] \<and> inText s
     \<and> content s = content page0 @ [Op_BT, Op_Tm 1 0 0 1 0 7015, Op_Tf 9 0]
     \<and> fg s = - 1 \<and> current_width s = - 1 \<and> pixel s = 256
     \<and> fsize s = 0 \<and> prev_text_x s = 0 \<and> prev_text_y s = 7015 \<and> diag s = []"
  by (simp add: page0_A_def draw_def fontA_def page0_fields Let_def make_pdf_font_def
      found_9_def no_resolution_def
      begin_text_def draw_glyphs_def emit_def to_x_def to_y_def signed_divide_int_def)

subsection \<open>Glyph runs\<close>

lemma pieces_Inr: "\<exists>l its. pieces (Inr g # es) = GlyphList (g # l) # its"
proof (cases "pieces es")
  case Nil
  then show ?thesis by simp
next
  case (Cons it its)
  then show ?thesis by (cases it) simp_all
qed

lemma pieces_Inr_Inr:
  "pieces (Inr g' # es) = GlyphList (g' # l) # its \<Longrightarrow>
   pieces (Inr g # Inr g' # es) = GlyphList (g # g' # l) # its"
  by simp

lemma pieces_Inr_Inl: "pieces (Inr g # Inl d # es) = GlyphList [g] # Spacing d # pieces es"
  by simp

lemma glyph_run_spec:
  "glyph_run px fs x y w gbuf1 gbuf ((gx, gy, c, g) # gs) = (gb, gb1, left) \<Longrightarrow>
   left = dropWhile (on_line y) gs \<and> gb1 \<noteq> []
   \<and> (\<exists>l its. pieces (Inr (index g, c) # tracked px fs (x + w) (takeWhile (on_line y) gs))
                  = GlyphList ((index g, c) # l) # its
         \<and> gb @ [GlyphList gb1] = gbuf @ GlyphList (gbuf1 @ (index g, c) # l) # its)"
proof (induction gs arbitrary: x w gbuf1 gbuf gx gy c g gb gb1 left)
  case Nil
  then show ?case by auto
next
  case (Cons g' gs)
  obtain xx yy c' gl' where g': "g' = (xx, yy, c', gl')" by (cases g') auto
  let ?gc = "(index g, c)" and ?gc' = "(index gl', c')"
  let ?ww = "lwidth gl' * px"
  show ?case
  proof (cases "yy = y")
    case False
    then have "gb = gbuf" "gb1 = gbuf1 @ [?gc]" "left = g' # gs"
      using Cons.prems by (simp_all add: g' Let_def)
    then show ?thesis using False by (simp add: g')
  next
    case True
    let ?dx = "xx - x - w"
    let ?T = "takeWhile (on_line y) gs"
    show ?thesis
    proof (cases "?dx \<ge> 4 * px \<or> ?dx \<le> - 4 * px")
      case far: True
      have r: "glyph_run px fs (x + w + ?dx) y ?ww []
                 ((gbuf @ [GlyphList (gbuf1 @ [?gc])]) @ [Spacing (correction px fs ?dx)])
                 ((xx, yy, c', gl') # gs) = (gb, gb1, left)"
        using Cons.prems True far by (simp add: g' Let_def)
      from Cons.IH [OF r] obtain l its where
        f: "left = dropWhile (on_line y) gs" "gb1 \<noteq> []"
           "pieces (Inr ?gc' # tracked px fs (x + w + ?dx + ?ww) ?T) = GlyphList (?gc' # l) # its"
           "gb @ [GlyphList gb1] =
              ((gbuf @ [GlyphList (gbuf1 @ [?gc])]) @ [Spacing (correction px fs ?dx)])
                @ GlyphList ([] @ ?gc' # l) # its"
        by blast
      have t: "tracked px fs (x + w) (takeWhile (on_line y) (g' # gs))
               = Inl (correction px fs ?dx) # Inr ?gc' # tracked px fs (x + w + ?dx + ?ww) ?T"
        using True far by (simp add: g' Let_def algebra_simps)
      have p: "pieces (Inr ?gc # tracked px fs (x + w) (takeWhile (on_line y) (g' # gs)))
               = GlyphList (?gc # []) # Spacing (correction px fs ?dx) # GlyphList (?gc' # l) # its"
        unfolding t pieces_Inr_Inl f(3) ..
      have "left = dropWhile (on_line y) (g' # gs)" using f(1) True by (simp add: g')
      moreover have "gb @ [GlyphList gb1]
          = gbuf @ GlyphList (gbuf1 @ ?gc # []) # Spacing (correction px fs ?dx) # GlyphList (?gc' # l) # its"
        using f(4) by simp
      ultimately show ?thesis using f(2) p by blast
    next
      case near: False
      have r: "glyph_run px fs (x + w + 0) y ?ww (gbuf1 @ [?gc]) gbuf ((xx, yy, c', gl') # gs)
                 = (gb, gb1, left)"
        using Cons.prems True near by (simp add: g' Let_def)
      from Cons.IH [OF r] obtain l its where
        f: "left = dropWhile (on_line y) gs" "gb1 \<noteq> []"
           "pieces (Inr ?gc' # tracked px fs (x + w + 0 + ?ww) ?T) = GlyphList (?gc' # l) # its"
           "gb @ [GlyphList gb1] = gbuf @ GlyphList ((gbuf1 @ [?gc]) @ ?gc' # l) # its"
        by blast
      have t: "tracked px fs (x + w) (takeWhile (on_line y) (g' # gs))
               = Inr ?gc' # tracked px fs (x + w + 0 + ?ww) ?T"
        using True near by (simp add: g' Let_def)
      have p: "pieces (Inr ?gc # tracked px fs (x + w) (takeWhile (on_line y) (g' # gs)))
               = GlyphList (?gc # ?gc' # l) # its"
        unfolding t by (rule pieces_Inr_Inr [OF f(3)])
      have "left = dropWhile (on_line y) (g' # gs)" using f(1) True by (simp add: g')
      moreover have "gb @ [GlyphList gb1] = gbuf @ GlyphList (gbuf1 @ ?gc # ?gc' # l) # its"
        using f(4) by simp
      ultimately show ?thesis using f(2) p by blast
    qed
  qed
qed

lemma glyph_runs_spec: "fst (glyph_runs px fs ptx pty gs) = show_runs px fs ptx pty gs"
proof (induction px fs ptx pty gs rule: glyph_runs.induct)
  case (1 px fs ptx pty)
  then show ?case by simp
next
  case (2 px fs ptx pty x y ch gl rest)
  obtain gbuf gbuf1 left where r:
    "glyph_run px fs x y (lwidth gl * px) [] [] ((x, y, ch, gl) # rest) = (gbuf, gbuf1, left)"
    by (cases "glyph_run px fs x y (lwidth gl * px) [] [] ((x, y, ch, gl) # rest)") auto
  let ?bx = "real_of_int (x sdiv px)" and ?by = "real_of_int (y sdiv px)"
  obtain toks ptx' pty' where t: "glyph_runs px fs ?bx ?by left = (toks, ptx', pty')"
    by (cases "glyph_runs px fs ?bx ?by left") auto
  from glyph_run_spec [OF r] obtain l its where
    f: "left = dropWhile (on_line y) rest" "gbuf1 \<noteq> []"
       "pieces (Inr (index gl, ch) # tracked px fs (x + lwidth gl * px) (takeWhile (on_line y) rest))
          = GlyphList ((index gl, ch) # l) # its"
       "gbuf @ [GlyphList gbuf1] = [] @ GlyphList ([] @ (index gl, ch) # l) # its"
    by blast
  have u: "fst (glyph_runs px fs ptx pty ((x, y, ch, gl) # rest))
      = Op_Td (?bx - ptx) (?by - pty) # Op_TJ (gbuf @ [GlyphList gbuf1]) # toks"
    using f(2) by (simp add: r t Let_def del: glyph_run.simps)
  have tk: "toks = show_runs px fs ?bx ?by left"
    using "2.IH" [OF r [symmetric] refl refl refl refl refl] t by simp
  have "show_runs px fs ptx pty ((x, y, ch, gl) # rest)
      = Op_Td (?bx - ptx) (?by - pty) # Op_TJ (GlyphList ((index gl, ch) # l) # its)
          # show_runs px fs ?bx ?by left"
    unfolding show_runs.simps f(3) f(1) ..
  then show ?case unfolding u f(4) tk by simp
qed

lemma glyph_run_left:
  "snd (snd (glyph_run px fs x y w gbuf1 gbuf ((gx, y, c, g) # gs))) = left \<Longrightarrow>
   (left = [] \<and> y_changes ((gx, y, c, g) # gs) = 0)
   \<or> (left \<noteq> [] \<and> y_changes ((gx, y, c, g) # gs) = 1 + y_changes left)"
proof (induction gs arbitrary: x w gbuf1 gbuf gx c g left)
  case Nil
  then show ?case by auto
next
  case (Cons g' gs)
  obtain xx yy c' gl' where g': "g' = (xx, yy, c', gl')" by (cases g') auto
  show ?case
  proof (cases "yy = y")
    case False
    then show ?thesis using Cons.prems by (auto simp: g' Let_def)
  next
    case True
    let ?dx = "xx - x - w"
    show ?thesis
    proof (cases "?dx \<ge> 4 * px \<or> ?dx \<le> - 4 * px")
      case True
      have "snd (snd (glyph_run px fs (x + w + ?dx) y (lwidth gl' * px) []
          ((if length (gbuf1 @ [(index g, c)]) > 0 then gbuf @ [GlyphList (gbuf1 @ [(index g, c)])] else gbuf)
             @ [Spacing (correction px fs ?dx)])
          ((xx, y, c', gl') # gs))) = left"
        using Cons.prems True \<open>yy = y\<close> by (simp add: g' Let_def)
      from Cons.IH [OF this] show ?thesis using \<open>yy = y\<close> by (simp add: g')
    next
      case False
      have "snd (snd (glyph_run px fs (x + w + 0) y (lwidth gl' * px) (gbuf1 @ [(index g, c)]) gbuf
          ((xx, y, c', gl') # gs))) = left"
        using Cons.prems False \<open>yy = y\<close> by (simp add: g' Let_def)
      from Cons.IH [OF this] show ?thesis using \<open>yy = y\<close> by (simp add: g')
    qed
  qed
qed

lemma glyph_runs_count:
  "gs \<noteq> [] \<Longrightarrow> length (filter is_TJ (fst (glyph_runs px fs ptx pty gs))) = 1 + y_changes gs"
proof (induction px fs ptx pty gs rule: glyph_runs.induct)
  case (1 px fs ptx pty)
  then show ?case by simp
next
  case (2 px fs ptx pty x y ch gl rest)
  obtain gbuf gbuf1 left where r:
    "glyph_run px fs x y (lwidth gl * px) [] [] ((x, y, ch, gl) # rest) = (gbuf, gbuf1, left)"
    by (cases "glyph_run px fs x y (lwidth gl * px) [] [] ((x, y, ch, gl) # rest)") auto
  have l: "snd (snd (glyph_run px fs x y (lwidth gl * px) [] [] ((x, y, ch, gl) # rest))) = left"
    by (simp add: r)
  let ?bx = "real_of_int (x sdiv px)" and ?by = "real_of_int (y sdiv px)"
  obtain toks ptx' pty' where t: "glyph_runs px fs ?bx ?by left = (toks, ptx', pty')"
    by (cases "glyph_runs px fs ?bx ?by left") auto
  have u: "fst (glyph_runs px fs ptx pty ((x, y, ch, gl) # rest))
      = Op_Td (?bx - ptx) (?by - pty)
          # Op_TJ (if length gbuf1 > 0 then gbuf @ [GlyphList gbuf1] else gbuf) # toks"
    by (simp add: r t Let_def del: glyph_run.simps)
  show ?case
  proof (cases "left = []")
    case True
    then have "y_changes ((x, y, ch, gl) # rest) = 0" using glyph_run_left [OF l] by simp
    moreover have "toks = []" using t True by simp
    ultimately show ?thesis unfolding u by simp
  next
    case False
    then have yc: "y_changes ((x, y, ch, gl) # rest) = 1 + y_changes left"
      using glyph_run_left [OF l] by simp
    have "length (filter is_TJ (fst (glyph_runs px fs ?bx ?by left))) = 1 + y_changes left"
      by (rule "2.IH" [OF r [symmetric] refl refl refl refl refl False])
    then show ?thesis unfolding u yc by (simp add: t)
  qed
qed

lemma draw_glyphs_runs:
  "inText s \<Longrightarrow> drawn_glyphs s \<noteq> [] \<Longrightarrow>
   content (draw_glyphs s) =
     content s @ fst (glyph_runs (pixel s) (fsize s) (prev_text_x s) (prev_text_y s) (drawn_glyphs s))"
  by (simp add: draw_glyphs_def begin_text_def emit_def Let_def split: prod.splits)

lemma glyphs_of_pieces_Inr: "glyphs_of (pieces (Inr g # es)) = g # glyphs_of (pieces es)"
proof (cases "pieces es")
  case Nil
  then show ?thesis by simp
next
  case (Cons it its)
  then show ?thesis by (cases it) simp_all
qed

lemma glyphs_of_tracked: "glyphs_of (pieces (tracked px fs nxt gs)) = map glyph_code gs"
proof (induction gs arbitrary: nxt)
  case Nil
  then show ?case by simp
next
  case (Cons g gs)
  obtain x y c gl where g: "g = (x, y, c, gl)" by (cases g) auto
  show ?case
    unfolding g tracked.simps Let_def
    by (simp add: glyphs_of_pieces_Inr Cons.IH del: pieces.simps(3))
qed

lemma shown_show_runs: "shown (show_runs px fs ptx pty gs) = map glyph_code gs"
proof (induction px fs ptx pty gs rule: show_runs.induct)
  case (1 px fs ptx pty)
  then show ?case by simp
next
  case (2 px fs ptx pty x y c g gs)
  have "map glyph_code (takeWhile (on_line y) gs) @ map glyph_code (dropWhile (on_line y) gs)
        = map glyph_code gs"
    unfolding map_append [symmetric] takeWhile_dropWhile_id ..
  then show ?case
    unfolding show_runs.simps
    by (simp add: glyphs_of_pieces_Inr glyphs_of_tracked "2.IH" del: pieces.simps(3))
qed

lemma correction_finite:
  "px \<noteq> 0 \<Longrightarrow> fs \<noteq> 0 \<Longrightarrow>
   correction px fs dx = Finite (real_of_int (- dx) * (1000 / real_of_int px) / fs)"
  by (simp add: correction_def)

lemma correction_infinite:
  "px \<noteq> 0 \<Longrightarrow> dx \<noteq> 0 \<Longrightarrow>
   correction px 0 dx = (if (dx < 0) = (px > 0) then PlusInf else MinusInf)"
  by (auto simp: correction_def zero_less_mult_iff mult_less_0_iff zero_less_divide_iff
      divide_less_0_iff)

text \<open>
  Claim C3, as the specification states it, for three glyphs on one baseline, each of
  advance width 5 pixels (256 units to the pixel, font size 10). The second glyph lies 3
  pixels right of where the first glyph's advance predicts, the third 3 pixels right of
  where the second glyph's advance predicts: both deviations are below 4 pixels. The
  second glyph is joined to the first, but between the second and the third glyph the loop
  writes a correction: it measures from the position that it tracks (which ignores the
  3 pixels accepted before) and finds 6 pixels.
\<close>

theorem glyph_drift_counterexample:
  "2048 - (0 + lwidth glyphA * 256) = 3 * 256
   \<and> 4096 - (2048 + lwidth glyphA * 256) = 3 * 256
   \<and> glyph_runs 256 10 0 0 [(0, 0, 65, glyphA), (2048, 0, 66, glyphA), (4096, 0, 67, glyphA)]
       = ([Op_Td 0 0,
           Op_TJ [GlyphList [(36, 65), (36, 66)], Spacing (Finite (- 600)), GlyphList [(36, 67)]]],
          0, 0)"
  by (simp add: glyphA_def Let_def correction_def)

text \<open>
  Claim C3, amended. \<^verbatim>\<open>draw_glyphs\<close> writes the pending glyphs run by run, one \<^verbatim>\<open>Td\<close> and
  one \<^verbatim>\<open>TJ\<close> for each run, as \<open>show_runs\<close> says. A glyph whose vertical position
  differs from that of the glyph before starts a new run, and nothing else does: the
  number of runs is one more than the number of such glyphs. Within a run, the deviation
  \<open>dx\<close> of a glyph is measured from the position that the tracked pen predicts (\<open>tracked\<close>:
  the start of the run plus the advances and the corrections written so far; for the
  second glyph of a run this is the position predicted by the first glyph's advance
  width). With \<open>dx\<close> between -4 and 4 pixels (exclusive) the glyph is joined to the piece
  before it, no number is written and the deviation is taken as zero; with \<open>dx\<close> at least
  4 pixels or at most -4 pixels exactly one number is written before the glyph,
  \<open>-dx * (1000 / pixel) / fsize\<close> (an infinity when \<open>fsize\<close> is 0), inside the same
  \<^verbatim>\<open>TJ\<close>. For two pending glyphs this gives the three cases of the claim; for three
  glyphs on one baseline of which the second is joined to the first, the deviation of the
  third is its position minus the position of the first and the advances of the first
  and the second.
\<close>

theorem glyph_runs_tracked_pen:
  "fst (glyph_runs px fs ptx pty gs) = show_runs px fs ptx pty gs
   \<and> (inText s \<and> drawn_glyphs s \<noteq> [] \<longrightarrow>
      content (draw_glyphs s) =
        content s @ show_runs (pixel s) (fsize s) (prev_text_x s) (prev_text_y s) (drawn_glyphs s))
   \<and> (gs \<noteq> [] \<longrightarrow> length (filter is_TJ (fst (glyph_runs px fs ptx pty gs))) = 1 + y_changes gs)
   \<and> (ya \<noteq> yb \<longrightarrow>
        fst (glyph_runs px fs ptx pty [(xa, ya, ca, ga), (xb, yb, cb, gb)]) =
          [Op_Td (real_of_int (xa sdiv px) - ptx) (real_of_int (ya sdiv px) - pty),
           Op_TJ [GlyphList [(index ga, ca)]],
           Op_Td (real_of_int (xb sdiv px) - real_of_int (xa sdiv px))
                 (real_of_int (yb sdiv px) - real_of_int (ya sdiv px)),
           Op_TJ [GlyphList [(index gb, cb)]]])
   \<and> (ya = yb \<and> \<not> (xb - xa - lwidth ga * px \<ge> 4 * px \<or> xb - xa - lwidth ga * px \<le> - 4 * px) \<longrightarrow>
        fst (glyph_runs px fs ptx pty [(xa, ya, ca, ga), (xb, yb, cb, gb)]) =
          [Op_Td (real_of_int (xa sdiv px) - ptx) (real_of_int (ya sdiv px) - pty),
           Op_TJ [GlyphList [(index ga, ca), (index gb, cb)]]])
   \<and> (ya = yb \<and> (xb - xa - lwidth ga * px \<ge> 4 * px \<or> xb - xa - lwidth ga * px \<le> - 4 * px) \<longrightarrow>
        fst (glyph_runs px fs ptx pty [(xa, ya, ca, ga), (xb, yb, cb, gb)]) =
          [Op_Td (real_of_int (xa sdiv px) - ptx) (real_of_int (ya sdiv px) - pty),
           Op_TJ [GlyphList [(index ga, ca)],
                  Spacing (correction px fs (xb - xa - lwidth ga * px)),
                  GlyphList [(index gb, cb)]]])
   \<and> (ya = yb \<and> yb = yc
        \<and> \<not> (xb - xa - lwidth ga * px \<ge> 4 * px \<or> xb - xa - lwidth ga * px \<le> - 4 * px) \<longrightarrow>
        fst (glyph_runs px fs ptx pty [(xa, ya, ca, ga), (xb, yb, cb, gb), (xc, yc, cc, gc)]) =
          [Op_Td (real_of_int (xa sdiv px) - ptx) (real_of_int (ya sdiv px) - pty),
           Op_TJ (if xc - (xa + lwidth ga * px + lwidth gb * px) \<ge> 4 * px
                     \<or> xc - (xa + lwidth ga * px + lwidth gb * px) \<le> - 4 * px
                  then [GlyphList [(index ga, ca), (index gb, cb)],
                        Spacing (correction px fs (xc - (xa + lwidth ga * px + lwidth gb * px))),
                        GlyphList [(index gc, cc)]]
                  else [GlyphList [(index ga, ca), (index gb, cb), (index gc, cc)]])])
   \<and> (px \<noteq> 0 \<and> fs \<noteq> 0 \<longrightarrow>
        correction px fs dx = Finite (real_of_int (- dx) * (1000 / real_of_int px) / fs))
   \<and> (px \<noteq> 0 \<and> dx \<noteq> 0 \<longrightarrow>
        correction px 0 dx = (if (dx < 0) = (px > 0) then PlusInf else MinusInf))"
proof (intro conjI impI)
  show "fst (glyph_runs px fs ptx pty gs) = show_runs px fs ptx pty gs"
    by (rule glyph_runs_spec)
next
  assume "inText s \<and> drawn_glyphs s \<noteq> []"
  then show "content (draw_glyphs s) =
        content s @ show_runs (pixel s) (fsize s) (prev_text_x s) (prev_text_y s) (drawn_glyphs s)"
    by (simp add: draw_glyphs_runs glyph_runs_spec)
next
  assume "gs \<noteq> []"
  then show "length (filter is_TJ (fst (glyph_runs px fs ptx pty gs))) = 1 + y_changes gs"
    by (rule glyph_runs_count)
next
  assume "ya \<noteq> yb"
  then show "fst (glyph_runs px fs ptx pty [(xa, ya, ca, ga), (xb, yb, cb, gb)]) =
          [Op_Td (real_of_int (xa sdiv px) - ptx) (real_of_int (ya sdiv px) - pty),
           Op_TJ [GlyphList [(index ga, ca)]],
           Op_Td (real_of_int (xb sdiv px) - real_of_int (xa sdiv px))
                 (real_of_int (yb sdiv px) - real_of_int (ya sdiv px)),
           Op_TJ [GlyphList [(index gb, cb)]]]"
    by (auto simp: Let_def)
next
  assume "ya = yb \<and> \<not> (xb - xa - lwidth ga * px \<ge> 4 * px \<or> xb - xa - lwidth ga * px \<le> - 4 * px)"
  then show "fst (glyph_runs px fs ptx pty [(xa, ya, ca, ga), (xb, yb, cb, gb)]) =
          [Op_Td (real_of_int (xa sdiv px) - ptx) (real_of_int (ya sdiv px) - pty),
           Op_TJ [GlyphList [(index ga, ca), (index gb, cb)]]]"
    by (simp add: Let_def)
next
  assume "ya = yb \<and> (xb - xa - lwidth ga * px \<ge> 4 * px \<or> xb - xa - lwidth ga * px \<le> - 4 * px)"
  then show "fst (glyph_runs px fs ptx pty [(xa, ya, ca, ga), (xb, yb, cb, gb)]) =
          [Op_Td (real_of_int (xa sdiv px) - ptx) (real_of_int (ya sdiv px) - pty),
           Op_TJ [GlyphList [(index ga, ca)],
                  Spacing (correction px fs (xb - xa - lwidth ga * px)),
                  GlyphList [(index gb, cb)]]]"
    by (auto simp: Let_def)
next
  assume a: "ya = yb \<and> yb = yc
        \<and> \<not> (xb - xa - lwidth ga * px \<ge> 4 * px \<or> xb - xa - lwidth ga * px \<le> - 4 * px)"
  have e: "xc - (xa + lwidth ga * px) - lwidth gb * px = xc - (xa + lwidth ga * px + lwidth gb * px)"
    by simp
  show "fst (glyph_runs px fs ptx pty [(xa, ya, ca, ga), (xb, yb, cb, gb), (xc, yc, cc, gc)]) =
          [Op_Td (real_of_int (xa sdiv px) - ptx) (real_of_int (ya sdiv px) - pty),
           Op_TJ (if xc - (xa + lwidth ga * px + lwidth gb * px) \<ge> 4 * px
                     \<or> xc - (xa + lwidth ga * px + lwidth gb * px) \<le> - 4 * px
                  then [GlyphList [(index ga, ca), (index gb, cb)],
                        Spacing (correction px fs (xc - (xa + lwidth ga * px + lwidth gb * px))),
                        GlyphList [(index gc, cc)]]
                  else [GlyphList [(index ga, ca), (index gb, cb), (index gc, cc)]])]"
    using a by (auto simp: Let_def e)
next
  assume "px \<noteq> 0 \<and> fs \<noteq> 0"
  then show "correction px fs dx = Finite (real_of_int (- dx) * (1000 / real_of_int px) / fs)"
    by (simp add: correction_finite)
next
  assume "px \<noteq> 0 \<and> dx \<noteq> 0"
  then show "correction px 0 dx = (if (dx < 0) = (px > 0) then PlusInf else MinusInf)"
    by (simp add: correction_infinite)
qed

theorem glyph_runs_tracked_pen_witness:
  "fst (glyph_runs 256 10 0 0 [(0, 0, 65, glyphA), (2048, 0, 66, glyphA)])
     = [Op_Td 0 0, Op_TJ [GlyphList [(36, 65), (36, 66)]]]
   \<and> fst (glyph_runs 256 10 0 0 [(0, 0, 65, glyphA), (2560, 0, 66, glyphA)])
     = [Op_Td 0 0, Op_TJ [GlyphList [(36, 65)], Spacing (Finite (- 500)), GlyphList [(36, 66)]]]
   \<and> fst (glyph_runs 256 0 0 0 [(0, 0, 65, glyphA), (2560, 0, 66, glyphA)])
     = [Op_Td 0 0, Op_TJ [GlyphList [(36, 65)], Spacing MinusInf, GlyphList [(36, 66)]]]
   \<and> fst (glyph_runs 256 10 0 0 [(0, 0, 65, glyphA), (1280, 512, 66, glyphA)])
     = [Op_Td 0 0, Op_TJ [GlyphList [(36, 65)]], Op_Td 5 2, Op_TJ [GlyphList [(36, 66)]]]
   \<and> fst (glyph_runs 256 10 0 0 [(0, 0, 65, glyphA), (2048, 0, 66, glyphA), (4096, 0, 67, glyphA)])
     = [Op_Td 0 0,
        Op_TJ [GlyphList [(36, 65), (36, 66)], Spacing (Finite (- 600)), GlyphList [(36, 67)]]]
   \<and> show_runs 256 10 0 0 [(0, 0, 65, glyphA), (2048, 0, 66, glyphA), (4096, 0, 67, glyphA)]
     = [Op_Td 0 0,
        Op_TJ [GlyphList [(36, 65), (36, 66)], Spacing (Finite (- 600)), GlyphList [(36, 67)]]]
   \<and> length (filter is_TJ (fst (glyph_runs 256 10 0 0
        [(0, 0, 65, glyphA), (1280, 512, 66, glyphA), (2560, 512, 67, glyphA)]))) = 2
   \<and> content (draw_glyphs (the page0_A))
     = content (the page0_A) @ [Op_Td 0 0, Op_TJ [GlyphList [(36, 65)]]]"
proof -
  note t = glyph_runs_tracked_pen [where px = 256 and ptx = 0 and pty = 0 and xa = 0 and ya = 0
      and ca = 65 and ga = glyphA and cb = 66 and gb = glyphA]
  have a: "fst (glyph_runs 256 10 0 0 [(0, 0, 65, glyphA), (2048, 0, 66, glyphA)])
     = [Op_Td 0 0, Op_TJ [GlyphList [(36, 65), (36, 66)]]]"
    using t [where fs = 10 and xb = 2048 and yb = 0] by (simp add: glyphA_def)
  have k: "correction 256 10 1280 = Finite (- 500)" "correction 256 10 1536 = Finite (- 600)"
    "correction 256 0 1280 = MinusInf"
    using t [where fs = 10 and dx = 1280] t [where fs = 10 and dx = 1536] t [where dx = 1280]
    by simp_all
  have b: "fst (glyph_runs 256 10 0 0 [(0, 0, 65, glyphA), (2560, 0, 66, glyphA)])
     = [Op_Td 0 0, Op_TJ [GlyphList [(36, 65)], Spacing (Finite (- 500)), GlyphList [(36, 66)]]]"
    using t [where fs = 10 and xb = 2560 and yb = 0] k by (simp add: glyphA_def)
  have b0: "fst (glyph_runs 256 0 0 0 [(0, 0, 65, glyphA), (2560, 0, 66, glyphA)])
     = [Op_Td 0 0, Op_TJ [GlyphList [(36, 65)], Spacing MinusInf, GlyphList [(36, 66)]]]"
    using t [where fs = 0 and xb = 2560 and yb = 0] k by (simp add: glyphA_def)
  have c: "fst (glyph_runs 256 10 0 0 [(0, 0, 65, glyphA), (1280, 512, 66, glyphA)])
     = [Op_Td 0 0, Op_TJ [GlyphList [(36, 65)]], Op_Td 5 2, Op_TJ [GlyphList [(36, 66)]]]"
    using t [where fs = 10 and xb = 1280 and yb = 512]
    by (simp add: glyphA_def signed_divide_int_def)
  have d: "fst (glyph_runs 256 10 0 0 [(0, 0, 65, glyphA), (2048, 0, 66, glyphA), (4096, 0, 67, glyphA)])
     = [Op_Td 0 0,
        Op_TJ [GlyphList [(36, 65), (36, 66)], Spacing (Finite (- 600)), GlyphList [(36, 67)]]]"
    using t [where fs = 10 and xb = 2048 and yb = 0 and yc = 0 and xc = 4096 and cc = 67
        and gc = glyphA] k
    by (simp add: glyphA_def)
  have e: "show_runs 256 10 0 0 [(0, 0, 65, glyphA), (2048, 0, 66, glyphA), (4096, 0, 67, glyphA)]
     = [Op_Td 0 0,
        Op_TJ [GlyphList [(36, 65), (36, 66)], Spacing (Finite (- 600)), GlyphList [(36, 67)]]]"
    using t [where fs = 10
        and gs = "[(0, 0, 65, glyphA), (2048, 0, 66, glyphA), (4096, 0, 67, glyphA)]"] d
    by simp
  have f: "length (filter is_TJ (fst (glyph_runs 256 10 0 0
        [(0, 0, 65, glyphA), (1280, 512, 66, glyphA), (2560, 512, 67, glyphA)]))) = 2"
    using t [where fs = 10
        and gs = "[(0, 0, 65, glyphA), (1280, 512, 66, glyphA), (2560, 512, 67, glyphA)]"]
    by simp
  obtain s where s: "page0_A = Some s" "drawn_glyphs s = [(0, 1796031, 65, glyphA)]" "inText s"
    "pixel s = 256" "fsize s = 0" "prev_text_x s = 0" "prev_text_y s = 7015"
    using page0_A_fields by blast
  have p: "the page0_A = s" by (simp add: s(1))
  have g: "content (draw_glyphs s) = content s @ [Op_Td 0 0, Op_TJ [GlyphList [(36, 65)]]]"
    using glyph_runs_tracked_pen [where s = s] s
    by (simp add: glyphA_def signed_divide_int_def)
  show ?thesis unfolding p using a b b0 c d e f g by blast
qed

subsection \<open>What is written for the pending glyphs\<close>

lemma shown_pending: "shown (pending_runs s) = map glyph_code (drawn_glyphs s)"
  unfolding pending_runs_def glyph_runs_spec by (rule shown_show_runs)

lemma pending_runs_nothing: "drawn_glyphs s = [] \<Longrightarrow> pending_runs s = []"
  by (simp add: pending_runs_def)

lemma draw_glyphs_in_text: "inText s \<Longrightarrow> content (draw_glyphs s) = content s @ pending_runs s"
proof (cases "drawn_glyphs s = []")
  case True
  then show ?thesis by (simp add: draw_glyphs_nothing_pending pending_runs_nothing)
next
  case False
  assume "inText s"
  from draw_glyphs_runs [OF this False] show ?thesis by (simp add: pending_runs_def)
qed

lemma draw_glyphs_pending:
  "pending_in_text s \<Longrightarrow> content (draw_glyphs s) = content s @ pending_runs s"
proof (cases "drawn_glyphs s = []")
  case True
  then show ?thesis by (simp add: draw_glyphs_nothing_pending pending_runs_nothing)
next
  case False
  assume "pending_in_text s"
  with False have "inText s" by (simp add: pending_in_text_def)
  then show ?thesis by (rule draw_glyphs_in_text)
qed

lemma end_text_pending: "content (end_text s) = content s @ pending_text s"
proof (cases "inText s")
  case True
  then show ?thesis by (simp add: end_text_def pending_text_def draw_glyphs_in_text)
next
  case False
  then show ?thesis by (simp add: end_text_def pending_text_def)
qed

lemma pending_text_ops: "\<forall>t \<in> set (pending_text s). is_text_op t"
  using glyph_runs_text_ops [of "pixel s" "fsize s" "prev_text_x s" "prev_text_y s" "drawn_glyphs s"]
  by (auto simp: pending_text_def pending_runs_def)

lemma end_text_in_text: "inText s \<Longrightarrow> drawn_glyphs (end_text s) = []"
  by (simp add: end_text_def)

lemma end_text_diag [simp]: "diag (end_text s) = diag s"
  by (simp add: end_text_def draw_glyphs_def begin_text_def emit_def Let_def split: prod.splits)

subsection \<open>Malformed polylines and polygons\<close>

text \<open>
  Claim C9, as the specification states it, at the renderer of a new page in which the
  character 65 has been drawn with an outline font (a text object is open and the glyph is
  pending): \<^verbatim>\<open>lines\<close> with two abscissas and one ordinate writes the pending glyph and
  \<^verbatim>\<open>ET\<close>, empties the list of pending glyphs and leaves the text object, so the call is
  not without output and not without effect on the renderer; and it prints nothing. The
  same holds for \<^verbatim>\<open>polygon\<close> without points.
\<close>

theorem malformed_lines_counterexample:
  "page0_A \<noteq> None
   \<and> content (lines [0, 256] [0] (the page0_A))
       = content (the page0_A) @ [Op_Td 0 0, Op_TJ [GlyphList [(36, 65)]], Op_ET]
   \<and> inText (the page0_A) \<and> \<not> inText (lines [0, 256] [0] (the page0_A))
   \<and> drawn_glyphs (the page0_A) = [(0, 1796031, 65, glyphA)]
   \<and> drawn_glyphs (lines [0, 256] [0] (the page0_A)) = []
   \<and> diag (lines [0, 256] [0] (the page0_A)) = []
   \<and> content (polygon [] [] True (the page0_A))
       = content (the page0_A) @ [Op_Td 0 0, Op_TJ [GlyphList [(36, 65)]], Op_ET]
   \<and> diag (polygon [] [] True (the page0_A)) = []"
proof -
  obtain s where s: "page0_A = Some s" "drawn_glyphs s = [(0, 1796031, 65, glyphA)]" "inText s"
    "pixel s = 256" "fsize s = 0" "prev_text_x s = 0" "prev_text_y s = 7015" "diag s = []"
    using page0_A_fields by blast
  have t: "the page0_A = s" by (simp add: s(1))
  have nn: "page0_A \<noteq> None" by (simp add: s(1))
  have l: "lines [0, 256] [0] s = end_text s" by (simp add: lines_def)
  have p: "polygon [] [] True s = end_text s" by (simp add: polygon_def)
  have e: "content (end_text s) = content s @ [Op_Td 0 0, Op_TJ [GlyphList [(36, 65)]], Op_ET]"
    unfolding end_text_pending
    using s by (simp add: pending_text_def pending_runs_def glyphA_def signed_divide_int_def)
  have d: "drawn_glyphs (end_text s) = []" using s(3) by (rule end_text_in_text)
  show ?thesis unfolding t l p using nn e d s by simp
qed

text \<open>
  Claim C9, amended. A call of \<^verbatim>\<open>lines\<close> or \<^verbatim>\<open>polygon\<close> whose arrays differ in length,
  or with no point, does what \<^verbatim>\<open>end_text\<close> does and nothing else. It writes no path
  operator. Outside a text object it writes nothing and returns the renderer unchanged.
  Inside a text object it writes the runs of the pending glyphs (every pending glyph is
  shown, in order) and \<^verbatim>\<open>ET\<close>, and leaves the text object with no glyph pending. It
  prints no diagnostic.
\<close>

theorem malformed_lines_polygon_only_end_text:
  assumes "length y \<noteq> length x \<or> length x < 1"
  shows "lines x y s = end_text s
    \<and> polygon x y convex s = end_text s
    \<and> content (lines x y s) = content s @ pending_text s
    \<and> content (polygon x y convex s) = content s @ pending_text s
    \<and> (\<forall>t \<in> set (pending_text s). is_text_op t)
    \<and> (inText s \<longrightarrow>
          pending_text s = pending_runs s @ [Op_ET]
          \<and> shown (pending_runs s) = map glyph_code (drawn_glyphs s)
          \<and> \<not> inText (lines x y s) \<and> drawn_glyphs (lines x y s) = []
          \<and> \<not> inText (polygon x y convex s) \<and> drawn_glyphs (polygon x y convex s) = [])
    \<and> (\<not> inText s \<longrightarrow> lines x y s = s \<and> polygon x y convex s = s)
    \<and> diag (lines x y s) = diag s
    \<and> diag (polygon x y convex s) = diag s"
proof -
  have l: "lines x y s = end_text s" using assms by (auto simp: lines_def Let_def)
  have p: "polygon x y convex s = end_text s" using assms by (auto simp: polygon_def Let_def)
  have "inText s \<longrightarrow>
          pending_text s = pending_runs s @ [Op_ET]
          \<and> shown (pending_runs s) = map glyph_code (drawn_glyphs s)
          \<and> \<not> inText (lines x y s) \<and> drawn_glyphs (lines x y s) = []
          \<and> \<not> inText (polygon x y convex s) \<and> drawn_glyphs (polygon x y convex s) = []"
    unfolding l p by (simp add: pending_text_def shown_pending end_text_in_text)
  moreover have "\<not> inText s \<longrightarrow> lines x y s = s \<and> polygon x y convex s = s"
    unfolding l p by (simp add: end_text_outside_text)
  moreover have "content (lines x y s) = content s @ pending_text s"
    "content (polygon x y convex s) = content s @ pending_text s"
    unfolding l p by (rule end_text_pending)+
  moreover have "diag (lines x y s) = diag s" "diag (polygon x y convex s) = diag s"
    unfolding l p by simp_all
  ultimately show ?thesis using l p pending_text_ops [of s] by blast
qed

theorem malformed_lines_polygon_witness:
  "lines [0, 256] [0] (the page0_A) = end_text (the page0_A)
   \<and> content (lines [0, 256] [0] (the page0_A))
       = content (the page0_A) @ [Op_Td 0 0, Op_TJ [GlyphList [(36, 65)]], Op_ET]
   \<and> drawn_glyphs (lines [0, 256] [0] (the page0_A)) = []
   \<and> polygon [] [] True (new_renderer 256 600 21 29.7) = new_renderer 256 600 21 29.7"
proof -
  have h1: "length [0::int] \<noteq> length [0, 256::int] \<or> length [0, 256::int] < 1" by simp
  have h2: "length ([]::int list) \<noteq> length ([]::int list) \<or> length ([]::int list) < 1" by simp
  have n: "\<not> inText (new_renderer 256 600 21 29.7)" by (simp add: new_renderer_def)
  obtain s where s: "page0_A = Some s" "drawn_glyphs s = [(0, 1796031, 65, glyphA)]" "inText s"
    "pixel s = 256" "fsize s = 0" "prev_text_x s = 0" "prev_text_y s = 7015"
    using page0_A_fields by blast
  have t: "the page0_A = s" by (simp add: s(1))
  have r: "pending_runs s = [Op_Td 0 0, Op_TJ [GlyphList [(36, 65)]]]"
    using s by (simp add: pending_runs_def glyphA_def signed_divide_int_def)
  note a = malformed_lines_polygon_only_end_text [OF h1, of s]
  have a1: "lines [0, 256] [0] s = end_text s" using a by blast
  have a2: "content (lines [0, 256] [0] s) = content s @ pending_text s" using a by blast
  have a3: "pending_text s = pending_runs s @ [Op_ET]" "drawn_glyphs (lines [0, 256] [0] s) = []"
    using a s(3) by blast+
  have b: "polygon [] [] True (new_renderer 256 600 21 29.7) = new_renderer 256 600 21 29.7"
    using malformed_lines_polygon_only_end_text [OF h2, of "new_renderer 256 600 21 29.7" True] n
    by blast
  show ?thesis unfolding t using a1 a2 a3 r b by simp
qed


subsection \<open>Flushing the pending glyph run\<close>

lemma select_alpha_ops:
  "\<exists>ts. content (select_alpha a s) = content s @ ts \<and> (\<forall>t \<in> set ts. \<not> is_text_op t)"
  by (simp add: select_alpha_def AllocateNewObjectID_def Let_def)

lemma select_fill_color_ops:
  "\<exists>ts. content (select_fill_color grc c s) = content s @ ts \<and> (\<forall>t \<in> set ts. \<not> is_text_op t)"
proof -
  obtain r0 g0 b0 a0 where c: "grc c = (r0, g0, b0, a0)" by (cases "grc c") auto
  let ?c1 = "((r0 * 1000) sdiv 255, (g0 * 1000) sdiv 255, (b0 * 1000) sdiv 255)"
  let ?a = "(a0 * 1000) sdiv 255"
  show ?thesis
  proof (cases "fill_rgb s = ?c1")
    case True
    then have "select_fill_color grc c s = select_alpha ?a s"
      by (simp add: select_fill_color_def Let_def c)
    then show ?thesis using select_alpha_ops [of ?a s] by simp
  next
    case False
    let ?t = "Op_rg (real_of_int ((r0 * 1000) sdiv 255) / 1000)
                  (real_of_int ((g0 * 1000) sdiv 255) / 1000)
                  (real_of_int ((b0 * 1000) sdiv 255) / 1000)"
    let ?s1 = "(emit [?t] s)\<lparr>fill_rgb := ?c1\<rparr>"
    from False have eq: "select_fill_color grc c s = select_alpha ?a ?s1"
      by (simp add: select_fill_color_def Let_def c)
    obtain ts where ts: "content (select_alpha ?a ?s1) = content ?s1 @ ts"
      "\<forall>t \<in> set ts. \<not> is_text_op t"
      using select_alpha_ops by blast
    have "content (select_fill_color grc c s) = content s @ (?t # ts)"
      using eq ts(1) by simp
    moreover have "\<forall>t \<in> set (?t # ts). \<not> is_text_op t" using ts(2) by simp
    ultimately show ?thesis by blast
  qed
qed

lemma select_stroke_color_ops:
  "\<exists>ts. content (select_stroke_color grc c s) = content s @ ts \<and> (\<forall>t \<in> set ts. \<not> is_text_op t)"
proof -
  obtain r0 g0 b0 a0 where c: "grc c = (r0, g0, b0, a0)" by (cases "grc c") auto
  let ?c1 = "((r0 * 1000) sdiv 255, (g0 * 1000) sdiv 255, (b0 * 1000) sdiv 255)"
  let ?a = "(a0 * 1000) sdiv 255"
  show ?thesis
  proof (cases "stroke_rgb s = ?c1")
    case True
    then have "select_stroke_color grc c s = select_alpha ?a s"
      by (simp add: select_stroke_color_def Let_def c)
    then show ?thesis using select_alpha_ops [of ?a s] by simp
  next
    case False
    let ?t = "Op_RG (real_of_int ((r0 * 1000) sdiv 255) / 1000)
                  (real_of_int ((g0 * 1000) sdiv 255) / 1000)
                  (real_of_int ((b0 * 1000) sdiv 255) / 1000)"
    let ?s1 = "(emit [?t] s)\<lparr>stroke_rgb := ?c1\<rparr>"
    from False have eq: "select_stroke_color grc c s = select_alpha ?a ?s1"
      by (simp add: select_stroke_color_def Let_def c)
    obtain ts where ts: "content (select_alpha ?a ?s1) = content ?s1 @ ts"
      "\<forall>t \<in> set ts. \<not> is_text_op t"
      using select_alpha_ops by blast
    have "content (select_stroke_color grc c s) = content s @ (?t # ts)"
      using eq ts(1) by simp
    moreover have "\<forall>t \<in> set (?t # ts). \<not> is_text_op t" using ts(2) by simp
    ultimately show ?thesis by blast
  qed
qed

lemma select_line_width_simps [simp]:
  "drawn_glyphs (select_line_width w s) = drawn_glyphs s"
  "inText (select_line_width w s) = inText s"
  "clip_level (select_line_width w s) = clip_level s"
  by (simp_all add: select_line_width_def Let_def)

lemma select_line_width_ops:
  "\<exists>ts. content (select_line_width w s) = content s @ ts \<and> (\<forall>t \<in> set ts. \<not> is_text_op t)"
  by (simp add: select_line_width_def Let_def)

lemma arc_segments_ops: "\<forall>t \<in> set (arc_segments prev_phi delta). \<not> is_text_op t"
proof (induction prev_phi delta rule: arc_segments.induct)
  case (1 prev_phi delta)
  show ?case
  proof (cases "delta > 0")
    case True
    then show ?thesis
      using "1.IH" [OF True refl refl refl refl refl refl refl refl refl refl refl refl]
      by (subst arc_segments.simps) (simp add: Let_def)
  next
    case False
    then show ?thesis by (subst arc_segments.simps) simp
  qed
qed

lemma bezier_arc_ops:
  "\<exists>ts. content (bezier_arc x1 y1 x2 y2 a d s) = content s @ ts \<and> (\<forall>t \<in> set ts. \<not> is_text_op t)"
  "drawn_glyphs (bezier_arc x1 y1 x2 y2 a d s) = drawn_glyphs s"
  using arc_segments_ops [of 0 d] by (auto simp: bezier_arc_def Let_def)

lemma end_text_next_id: "end_text (s\<lparr>next_id := n\<rparr>) = (end_text s)\<lparr>next_id := n\<rparr>"
  by (simp add: end_text_def draw_glyphs_def begin_text_def emit_def to_x_def to_y_def Let_def
      split: prod.splits)

lemma end_text_image_pool: "end_text (s\<lparr>image_pool := m\<rparr>) = (end_text s)\<lparr>image_pool := m\<rparr>"
  by (simp add: end_text_def draw_glyphs_def begin_text_def emit_def to_x_def to_y_def Let_def
      split: prod.splits)

lemma flushed_firstI:
  "content s' = content (end_text s) @ ts \<Longrightarrow> \<forall>t \<in> set ts. \<not> is_text_op t
     \<Longrightarrow> drawn_glyphs s' = [] \<Longrightarrow> flushed_first s s'"
  unfolding flushed_first_def end_text_pending by auto

lemma line_flushes: "pending_in_text s \<Longrightarrow> flushed_first s (line x1 y1 x2 y2 s)"
  by (rule flushed_firstI [where ts = "[Op_m (to_x s x1) (to_y s y1), Op_l (to_x s x2) (to_y s y2), Op_S]"])
     (simp_all add: line_def Let_def end_text_flushes)

lemma lines_flushes: "pending_in_text s \<Longrightarrow> flushed_first s (lines x y s)"
proof (cases "int (length y) \<noteq> int (length x) \<or> int (length x) < 1")
  case True
  assume "pending_in_text s"
  with True show ?thesis
    by (intro flushed_firstI [where ts = "[]"]) (auto simp: lines_def Let_def end_text_flushes)
next
  case False
  assume "pending_in_text s"
  with False show ?thesis
    by (intro flushed_firstI [where ts = "[Op_m (to_x s (x ! 0)) (to_y s (y ! 0))]
                      @ map (\<lambda>i. Op_l (to_x s (x ! i)) (to_y s (y ! i))) [1 ..< length x]
                      @ [Op_S]"]) (auto simp: lines_def Let_def end_text_flushes)
qed

lemma polygon_flushes: "pending_in_text s \<Longrightarrow> flushed_first s (polygon x y convex s)"
proof (cases "int (length y) \<noteq> int (length x) \<or> int (length x) < 1")
  case True
  assume "pending_in_text s"
  with True show ?thesis
    by (intro flushed_firstI [where ts = "[]"]) (auto simp: polygon_def Let_def end_text_flushes)
next
  case False
  assume "pending_in_text s"
  with False show ?thesis
    by (intro flushed_firstI [where ts = "[Op_m (to_x s (x ! 0)) (to_y s (y ! 0))]
                      @ map (\<lambda>i. Op_l (to_x s (x ! i)) (to_y s (y ! i))) [1 ..< length x]
                      @ [Op_h, Op_f]"]) (auto simp: polygon_def Let_def end_text_flushes)
qed

lemma fill_flushes:
  "pending_in_text s \<Longrightarrow> x1 < x2 \<and> y1 < y2 \<Longrightarrow> flushed_first s (fill x1 y1 x2 y2 s)"
  by (rule flushed_firstI [where ts = "[Op_re (to_x s (min x1 x2)) (to_y s (min y1 y2))
            (to_x s (max x1 x2) - to_x s (min x1 x2)) (to_y s (max y1 y2) - to_y s (min y1 y2)),
          Op_h, Op_f]"])
     (simp_all add: fill_def Let_def end_text_flushes)

lemma clear_flushes:
  assumes "pending_in_text s"
  shows "flushed_first s (clear grc x1 y1 x2 y2 s)"
proof -
  let ?s2 = "emit [Op_q] (end_text s)"
  let ?re = "[Op_re (to_x s (min x1 x2)) (to_y s (min y1 y2))
            (to_x s (max x1 x2) - to_x s (min x1 x2)) (to_y s (max y1 y2) - to_y s (min y1 y2)),
          Op_h, Op_f]"
  obtain pre where pre: "content (select_fill_color grc (bg ?s2) ?s2) = content ?s2 @ pre"
    "\<forall>t \<in> set pre. \<not> is_text_op t"
    using select_fill_color_ops by blast
  let ?s4 = "emit ?re (select_fill_color grc (bg ?s2) ?s2)"
  obtain post where post: "content (select_fill_color grc (fg ?s4) ?s4) = content ?s4 @ post"
    "\<forall>t \<in> set post. \<not> is_text_op t"
    using select_fill_color_ops by blast
  have "content (clear grc x1 y1 x2 y2 s) = content (end_text s) @ ([Op_q] @ pre @ ?re @ post @ [Op_Q])"
    using pre(1) post(1) by (simp add: clear_def Let_def)
  moreover have "\<forall>t \<in> set ([Op_q] @ pre @ ?re @ post @ [Op_Q]). \<not> is_text_op t"
    using pre(2) post(2) by auto
  moreover have "drawn_glyphs (clear grc x1 y1 x2 y2 s) = []"
    using assms by (simp add: clear_def Let_def end_text_flushes)
  ultimately show ?thesis by (rule flushed_firstI)
qed

lemma arc_flushes:
  assumes "pending_in_text s"
  shows "flushed_first s (arc x1 y1 x2 y2 a d s)" "flushed_first s (fill_arc x1 y1 x2 y2 a d s)"
proof -
  obtain ts where ts: "content (bezier_arc x1 y1 x2 y2 a d (end_text s)) = content (end_text s) @ ts"
    "\<forall>t \<in> set ts. \<not> is_text_op t"
    using bezier_arc_ops(1) by blast
  have d: "drawn_glyphs (bezier_arc x1 y1 x2 y2 a d (end_text s)) = []"
    using assms by (simp add: bezier_arc_ops(2) end_text_flushes)
  show "flushed_first s (arc x1 y1 x2 y2 a d s)"
    by (rule flushed_firstI [where ts = "ts @ [Op_S]"]) (use ts d in \<open>simp_all add: arc_def\<close>)
  show "flushed_first s (fill_arc x1 y1 x2 y2 a d s)"
    by (rule flushed_firstI [where ts = "ts @ [Op_f]"]) (use ts d in \<open>simp_all add: fill_arc_def\<close>)
qed

lemma set_clipping_flushes:
  assumes "pending_in_text s"
  shows "flushed_first s (set_clipping ornd x1 y1 x2 y2 restore s)"
proof -
  obtain rx1 ry1 rx2 ry2 where r: "ornd (pixel s) (ox s) (oy s) (x1, y1, x2, y2) = (rx1, ry1, rx2, ry2)"
    by (cases "ornd (pixel s) (ox s) (oy s) (x1, y1, x2, y2)") auto
  show ?thesis
  proof (cases restore)
    case True
    then show ?thesis
      using assms
      by (intro flushed_firstI [where ts = "[Op_Q]"])
         (simp_all add: set_clipping_def Let_def r end_text_flushes)
  next
    case False
    then show ?thesis
      using assms
      by (intro flushed_firstI [where ts = "[Op_q,
             Op_re (to_x s (min rx1 rx2)) (to_y s (min ry1 ry2))
               (to_x s (max rx1 rx2) - to_x s (min rx1 rx2))
               (to_y s (max ry1 ry2) - to_y s (min ry1 ry2)), Op_W, Op_n]"])
         (simp_all add: set_clipping_def Let_def r end_text_flushes to_x_def to_y_def)
  qed
qed

lemma image_flushes:
  assumes "pending_in_text s"
  shows "flushed_first s (image_pdf u w h x y cx1 cy1 cx2 cy2 a s)"
proof (cases "image_pool s u")
  case (Some i)
  then show ?thesis
    using assms
    by (intro flushed_firstI [where ts = "[Op_q,
           Op_cm (real_of_int (w sdiv pixel s) / (cx2 - cx1)) 0 0
             (real_of_int (h sdiv pixel s) / (cy2 - cy1)) (to_x s x) (to_y s y), Op_Do i, Op_Q]"])
       (simp_all add: image_pdf_def Let_def end_text_flushes)
next
  case None
  then show ?thesis
    using assms
    by (intro flushed_firstI [where ts = "[Op_q,
           Op_cm (real_of_int (w sdiv pixel s) / (cx2 - cx1)) 0 0
             (real_of_int (h sdiv pixel s) / (cy2 - cy1)) (to_x s x) (to_y s y),
           Op_Do (Suc (next_id s)), Op_Q]"])
       (simp_all add: image_pdf_def Let_def AllocateNewObjectID_def end_text_next_id
          end_text_image_pool end_text_flushes to_x_def to_y_def)
qed

lemma set_pencil_new_color:
  assumes "fg s \<noteq> get_color p"
  shows "\<exists>ts. content (set_pencil grc p s) = content (draw_glyphs s) @ ts
           \<and> (\<forall>t \<in> set ts. \<not> is_text_op t)"
    and "drawn_glyphs (set_pencil grc p s) = []"
proof -
  let ?s1 = "s\<lparr>pen := p, fg := get_color p\<rparr>"
  have dg: "draw_glyphs ?s1 = (draw_glyphs s)\<lparr>pen := p, fg := get_color p\<rparr>"
    by (simp add: draw_glyphs_def begin_text_def emit_def to_x_def to_y_def Let_def
        split: prod.splits)
  let ?d = "draw_glyphs ?s1"
  let ?f = "select_fill_color grc (get_color p) ?d"
  let ?k = "select_stroke_color grc (get_color p) ?f"
  let ?l = "?k\<lparr>lw := get_width p\<rparr>"
  have sp: "set_pencil grc p s = select_line_width (get_width p) ?l"
    using assms by (simp add: set_pencil_def Let_def)
  obtain t1 where t1: "content ?f = content ?d @ t1" "\<forall>t \<in> set t1. \<not> is_text_op t"
    using select_fill_color_ops by blast
  obtain t2 where t2: "content ?k = content ?f @ t2" "\<forall>t \<in> set t2. \<not> is_text_op t"
    using select_stroke_color_ops by blast
  obtain t3 where t3: "content (select_line_width (get_width p) ?l) = content ?l @ t3"
    "\<forall>t \<in> set t3. \<not> is_text_op t"
    using select_line_width_ops by blast
  have "content (set_pencil grc p s) = content (draw_glyphs s) @ (t1 @ t2 @ t3)"
    using t1(1) t2(1) t3(1) by (simp add: sp dg)
  moreover have "\<forall>t \<in> set (t1 @ t2 @ t3). \<not> is_text_op t" using t1(2) t2(2) t3(2) by auto
  ultimately show "\<exists>ts. content (set_pencil grc p s) = content (draw_glyphs s) @ ts
           \<and> (\<forall>t \<in> set ts. \<not> is_text_op t)"
    by blast
  show "drawn_glyphs (set_pencil grc p s) = []" by (simp add: sp)
qed

lemma set_pencil_same_color:
  assumes "fg s = get_color p"
  shows "drawn_glyphs (set_pencil grc p s) = drawn_glyphs s"
    and "content (set_pencil grc p s) =
           content s @ (if real_of_int (get_width p sdiv pixel s) \<noteq> current_width s
                        then [Op_w (real_of_int (get_width p sdiv pixel s))] else [])"
  using assms by (simp_all add: set_pencil_def select_line_width_def Let_def)

text \<open>
  Claim C7, as the specification states it, at the renderer of a new page in which the
  character 65 has been drawn with an outline font (so that its glyph is pending): setting
  a pencil of the current colour and of width two pixels writes the operator \<^verbatim>\<open>w\<close> while
  the glyph is still pending; the glyph run has not been written before it.
\<close>

theorem set_pencil_width_counterexample:
  "page0_A \<noteq> None
   \<and> drawn_glyphs (the page0_A) = [(0, 1796031, 65, glyphA)]
   \<and> content (set_pencil black \<lparr>get_color = - 1, get_width = 512\<rparr> (the page0_A))
       = content (the page0_A) @ [Op_w 2]
   \<and> drawn_glyphs (set_pencil black \<lparr>get_color = - 1, get_width = 512\<rparr> (the page0_A))
       = [(0, 1796031, 65, glyphA)]"
proof -
  obtain s where s: "page0_A = Some s" "drawn_glyphs s = [(0, 1796031, 65, glyphA)]"
    "fg s = - 1" "current_width s = - 1" "pixel s = 256"
    using page0_A_fields by blast
  have "content (set_pencil black \<lparr>get_color = - 1, get_width = 512\<rparr> s) = content s @ [Op_w 2]"
    using set_pencil_same_color(2) [of s "\<lparr>get_color = - 1, get_width = 512\<rparr>" black] s
    by (simp add: signed_divide_int_def)
  moreover have "drawn_glyphs (set_pencil black \<lparr>get_color = - 1, get_width = 512\<rparr> s)
         = [(0, 1796031, 65, glyphA)]"
    using set_pencil_same_color(1) [of s "\<lparr>get_color = - 1, get_width = 512\<rparr>" black] s by simp
  moreover have t: "the page0_A = s" by (simp add: s(1))
  moreover have "page0_A \<noteq> None" by (simp add: s(1))
  ultimately show ?thesis unfolding t using s(2) by blast
qed

text \<open>
  Claim C7, amended. In a renderer whose pending glyphs lie inside a text object (every
  renderer that the functions below produce, see \<open>pending_in_text\<close>), each drawing or
  clipping call (\<^verbatim>\<open>line\<close>, \<^verbatim>\<open>lines\<close>, \<^verbatim>\<open>clear\<close>, \<^verbatim>\<open>fill\<close> when it draws, \<^verbatim>\<open>arc\<close>,
  \<^verbatim>\<open>fill_arc\<close>, \<^verbatim>\<open>polygon\<close>, \<^verbatim>\<open>set_clipping\<close> to push or to restore, \<^verbatim>\<open>image\<close>) first
  writes what is pending: the runs of the pending glyphs, which show every pending glyph
  in order, and \<^verbatim>\<open>ET\<close> when a text object is open. What the call writes after that are
  no text operators, and no glyph is pending at the end. \<^verbatim>\<open>set_pencil\<close> writes the runs
  of the pending glyphs before its colour operators when the colour changes (the text
  object stays open); when only the width changes it writes the operator \<^verbatim>\<open>w\<close> and
  leaves the pending glyphs pending.
\<close>

theorem shapes_flush_pending_glyphs:
  assumes "pending_in_text s"
  shows "shown (pending_runs s) = map glyph_code (drawn_glyphs s)
    \<and> pending_text s = (if inText s then pending_runs s @ [Op_ET] else [])
    \<and> content (end_text s) = content s @ pending_text s
    \<and> drawn_glyphs (end_text s) = []
    \<and> \<not> inText (end_text s)
    \<and> flushed_first s (line x1 y1 x2 y2 s)
    \<and> flushed_first s (lines xs ys s)
    \<and> flushed_first s (clear grc x1 y1 x2 y2 s)
    \<and> (x1 < x2 \<and> y1 < y2 \<longrightarrow> flushed_first s (fill x1 y1 x2 y2 s))
    \<and> flushed_first s (arc x1 y1 x2 y2 a d s)
    \<and> flushed_first s (fill_arc x1 y1 x2 y2 a d s)
    \<and> flushed_first s (polygon xs ys convex s)
    \<and> flushed_first s (set_clipping ornd x1 y1 x2 y2 restore s)
    \<and> flushed_first s (image_pdf u w h x y cx1 cy1 cx2 cy2 al s)
    \<and> (fg s \<noteq> get_color p \<longrightarrow>
          (\<exists>ts. content (set_pencil grc p s) = content s @ pending_runs s @ ts
             \<and> (\<forall>t \<in> set ts. \<not> is_text_op t))
          \<and> drawn_glyphs (set_pencil grc p s) = [])
    \<and> (fg s = get_color p \<longrightarrow>
          drawn_glyphs (set_pencil grc p s) = drawn_glyphs s
          \<and> content (set_pencil grc p s) =
              content s @ (if real_of_int (get_width p sdiv pixel s) \<noteq> current_width s
                           then [Op_w (real_of_int (get_width p sdiv pixel s))] else []))"
proof -
  have "x1 < x2 \<and> y1 < y2 \<longrightarrow> flushed_first s (fill x1 y1 x2 y2 s)"
    using fill_flushes [OF assms] by blast
  moreover have "fg s \<noteq> get_color p \<longrightarrow>
          (\<exists>ts. content (set_pencil grc p s) = content s @ pending_runs s @ ts
             \<and> (\<forall>t \<in> set ts. \<not> is_text_op t))
          \<and> drawn_glyphs (set_pencil grc p s) = []"
    using set_pencil_new_color [of s p grc] unfolding draw_glyphs_pending [OF assms] by simp
  moreover have "fg s = get_color p \<longrightarrow>
          drawn_glyphs (set_pencil grc p s) = drawn_glyphs s
          \<and> content (set_pencil grc p s) =
              content s @ (if real_of_int (get_width p sdiv pixel s) \<noteq> current_width s
                           then [Op_w (real_of_int (get_width p sdiv pixel s))] else [])"
    using set_pencil_same_color [of s p grc] by blast
  moreover have "pending_text s = (if inText s then pending_runs s @ [Op_ET] else [])"
    by (simp add: pending_text_def)
  moreover have "\<not> inText (end_text s)" by simp
  ultimately show ?thesis
    by (intro conjI shown_pending end_text_pending end_text_flushes [OF assms] line_flushes [OF assms]
        lines_flushes [OF assms] clear_flushes [OF assms] arc_flushes [OF assms]
        polygon_flushes [OF assms] set_clipping_flushes [OF assms] image_flushes [OF assms])
qed

theorem shapes_flush_pending_glyphs_witness:
  "pending_in_text (the page0_A) \<and> drawn_glyphs (the page0_A) = [(0, 1796031, 65, glyphA)]
   \<and> pending_text (the page0_A) = [Op_Td 0 0, Op_TJ [GlyphList [(36, 65)]], Op_ET]
   \<and> content (end_text (the page0_A))
       = content (the page0_A) @ [Op_Td 0 0, Op_TJ [GlyphList [(36, 65)]], Op_ET]
   \<and> content (line 0 0 256 256 (the page0_A))
       = content (the page0_A)
           @ [Op_Td 0 0, Op_TJ [GlyphList [(36, 65)]], Op_ET, Op_m 0 7015, Op_l 1 7016, Op_S]
   \<and> flushed_first (the page0_A) (line 0 0 256 256 (the page0_A))
   \<and> drawn_glyphs (set_pencil black \<lparr>get_color = 7, get_width = 512\<rparr> (the page0_A)) = []"
proof -
  obtain s where s: "page0_A = Some s" "drawn_glyphs s = [(0, 1796031, 65, glyphA)]" "inText s"
    "fg s = - 1" "pixel s = 256" "fsize s = 0" "prev_text_x s = 0" "prev_text_y s = 7015"
    "content s = content page0 @ [Op_BT, Op_Tm 1 0 0 1 0 7015, Op_Tf 9 0]"
    using page0_A_fields by blast
  have p: "pending_in_text s" using s by (simp add: pending_in_text_def)
  have c: "fg s \<noteq> get_color \<lparr>get_color = 7, get_width = 512\<rparr>" using s by simp
  have t: "the page0_A = s" by (simp add: s(1))
  have r: "pending_runs s = [Op_Td 0 0, Op_TJ [GlyphList [(36, 65)]]]"
    using s by (simp add: pending_runs_def glyphA_def signed_divide_int_def)
  note w = shapes_flush_pending_glyphs [OF p, where ?x1.0 = 0 and ?y1.0 = 0 and ?x2.0 = 256
        and ?y2.0 = 256 and p = "\<lparr>get_color = 7, get_width = 512\<rparr>" and grc = black]
  have pt: "pending_text s = [Op_Td 0 0, Op_TJ [GlyphList [(36, 65)]], Op_ET]"
    using w s(3) r by simp
  have e: "content (end_text s) = content s @ [Op_Td 0 0, Op_TJ [GlyphList [(36, 65)]], Op_ET]"
    using w pt by simp
  have oy: "oy s = 1796031" "ox s = 0"
    using s(1) by (auto simp: page0_A_def draw_def fontA_def page0_fields Let_def make_pdf_font_def
        found_9_def no_resolution_def begin_text_def draw_glyphs_def emit_def)
  have l: "content (line 0 0 256 256 s)
       = content s @ [Op_Td 0 0, Op_TJ [GlyphList [(36, 65)]], Op_ET, Op_m 0 7015, Op_l 1 7016, Op_S]"
    using e s(5) oy by (simp add: line_def Let_def to_x_def to_y_def signed_divide_int_def)
  have f: "flushed_first s (line 0 0 256 256 s)" using w by blast
  have g: "drawn_glyphs (set_pencil black \<lparr>get_color = 7, get_width = 512\<rparr> s) = []"
    using w c by blast
  show ?thesis unfolding t using p s(2) pt e l f g by simp
qed

text \<open>
  \<open>pending_in_text\<close> holds in the renderer that the constructor returns and is kept by
  every function of the model that changes the renderer between pages.
\<close>

lemma flushed_first_pending: "flushed_first s s' \<Longrightarrow> pending_in_text s'"
  by (auto simp: flushed_first_def pending_in_text_def)

lemma set_clipping_drawn_glyphs:
  "drawn_glyphs (set_clipping ornd x1 y1 x2 y2 restore s) = drawn_glyphs (end_text s)"
proof -
  obtain rx1 ry1 rx2 ry2 where r: "ornd (pixel s) (ox s) (oy s) (x1, y1, x2, y2) = (rx1, ry1, rx2, ry2)"
    by (cases "ornd (pixel s) (ox s) (oy s) (x1, y1, x2, y2)") auto
  show ?thesis by (simp add: set_clipping_def Let_def r)
qed

lemma begin_page_pending: "drawn_glyphs s = [] \<Longrightarrow> pending_in_text (begin_page ornd s)"
  by (simp add: begin_page_def Let_def pending_in_text_def set_clipping_drawn_glyphs
      end_text_def emit_def)

lemma constructor_pending: "pending_in_text (pdf_hummus_renderer_rep ornd px d pw ph)"
  unfolding pdf_hummus_renderer_rep_def
  by (rule begin_page_pending) (simp add: new_renderer_def)

lemma end_page_drawn_glyphs:
  "pending_in_text s \<Longrightarrow> end_page s = Some s' \<Longrightarrow> drawn_glyphs s' = []"
  by (auto simp: end_page_def Let_def AllocateNewObjectID_def end_text_flushes
      split: option.splits prod.splits)

lemma next_page_pending:
  "pending_in_text s \<Longrightarrow> next_page ornd s = Some s' \<Longrightarrow> pending_in_text s'"
  by (auto simp: next_page_def begin_page_pending end_page_drawn_glyphs)

lemma set_pencil_pending: "pending_in_text s \<Longrightarrow> pending_in_text (set_pencil grc p s)"
proof (cases "fg s = get_color p")
  case True
  assume "pending_in_text s"
  then show ?thesis
    using True by (simp add: pending_in_text_def set_pencil_def Let_def)
next
  case False
  then show ?thesis using set_pencil_new_color(2) [OF False] by (simp add: pending_in_text_def)
qed

lemma draw_pending:
  assumes "draw find_font font_size ch f x y s = Some s'" "pending_in_text s"
  shows "pending_in_text s'"
proof (cases "get f ch")
  case None
  then show ?thesis using assms by (simp add: draw_def)
next
  case (Some gl)
  have "inText s'"
    using assms(1) Some
    by (auto simp: draw_def Let_def split: if_splits option.splits prod.splits)
  then show ?thesis by (simp add: pending_in_text_def)
qed


subsection \<open>The clip stack of a page\<close>

lemma q_depth_append [simp]: "q_depth (xs @ ys) = q_depth xs + q_depth ys"
  by (simp add: q_depth_def)

lemma q_depth_simps [simp]:
  "q_depth [] = 0" "q_depth (Op_q # ts) = q_depth ts + 1" "q_depth (Op_Q # ts) = q_depth ts - 1"
  by (simp_all add: q_depth_def)

lemma q_depth_other [simp]: "t \<noteq> Op_q \<Longrightarrow> t \<noteq> Op_Q \<Longrightarrow> q_depth (t # ts) = q_depth ts"
  by (simp add: q_depth_def)

lemma end_text_pages [simp]:
  "pages (end_text s) = pages s" "page_id (end_text s) = page_id s"
  "page_num (end_text s) = page_num s"
  by (simp_all add: end_text_def draw_glyphs_def begin_text_def emit_def Let_def split: prod.splits)

lemma q_depth_text_ops: "\<forall>t \<in> set ts. is_text_op t \<Longrightarrow> q_depth ts = 0"
  by (induction ts) (auto simp: q_depth_def)

lemma end_text_q_depth [simp]: "q_depth (content (end_text s)) = q_depth (content s)"
proof -
  obtain ts where "content (end_text s) = content s @ ts" "\<forall>t \<in> set ts. is_text_op t"
    using end_text_text_ops by blast
  then show ?thesis by (simp add: q_depth_text_ops)
qed

lemma close_clips_nat: "close_clips (int n) out = Some (- 1, out @ replicate n Op_Q)"
proof (induction n arbitrary: out)
  case 0
  show ?case by (subst close_clips.simps) simp
next
  case (Suc n)
  have "close_clips (int (Suc n)) out = close_clips (int n) (out @ [Op_Q])"
    by (subst close_clips.simps) simp
  then show ?case by (simp add: Suc.IH replicate_app_Cons_same)
qed

lemma close_clips_nonneg:
  "0 \<le> lvl \<Longrightarrow> close_clips lvl out = Some (- 1, out @ replicate (nat lvl) Op_Q)"
  using close_clips_nat [of "nat lvl" out] by simp

lemma q_depth_replicate_Q [simp]: "q_depth (replicate n Op_Q) = - int n"
  by (induction n) simp_all

lemma set_clipping_push:
  "clip_level (set_clipping ornd x1 y1 x2 y2 False s) = clip_level s + 1"
  "q_depth (content (set_clipping ornd x1 y1 x2 y2 False s)) = q_depth (content s) + 1"
proof -
  obtain rx1 ry1 rx2 ry2 where r: "ornd (pixel s) (ox s) (oy s) (x1, y1, x2, y2) = (rx1, ry1, rx2, ry2)"
    by (cases "ornd (pixel s) (ox s) (oy s) (x1, y1, x2, y2)") auto
  show "clip_level (set_clipping ornd x1 y1 x2 y2 False s) = clip_level s + 1"
    by (simp add: set_clipping_def Let_def r)
  show "q_depth (content (set_clipping ornd x1 y1 x2 y2 False s)) = q_depth (content s) + 1"
    by (simp add: set_clipping_def Let_def r)
qed

lemma set_clipping_restore:
  "clip_level (set_clipping ornd x1 y1 x2 y2 True s) = (if clip_level s > 0 then clip_level s - 1 else clip_level s)"
  "q_depth (content (set_clipping ornd x1 y1 x2 y2 True s)) = q_depth (content s) - 1"
proof -
  obtain rx1 ry1 rx2 ry2 where r: "ornd (pixel s) (ox s) (oy s) (x1, y1, x2, y2) = (rx1, ry1, rx2, ry2)"
    by (cases "ornd (pixel s) (ox s) (oy s) (x1, y1, x2, y2)") auto
  show "clip_level (set_clipping ornd x1 y1 x2 y2 True s)
      = (if clip_level s > 0 then clip_level s - 1 else clip_level s)"
    by (simp add: set_clipping_def Let_def r)
  show "q_depth (content (set_clipping ornd x1 y1 x2 y2 True s)) = q_depth (content s) - 1"
    by (simp add: set_clipping_def Let_def r)
qed

lemma clip_calls_nonneg: "0 \<le> clip_level s \<Longrightarrow> 0 \<le> clip_level (clip_calls ornd cs s)"
proof (induction cs arbitrary: s)
  case Nil
  then show ?case by simp
next
  case (Cons c cs)
  show ?case
  proof (cases c)
    case (Push x1 y1 x2 y2)
    then show ?thesis using Cons.prems by (simp add: Cons.IH set_clipping_push)
  next
    case (Restore x1 y1 x2 y2)
    then show ?thesis using Cons.prems by (simp add: Cons.IH set_clipping_restore)
  qed
qed

lemma clip_calls_matched:
  "matched (clip_level s) cs \<Longrightarrow>
   q_depth (content (clip_calls ornd cs s)) - clip_level (clip_calls ornd cs s)
     = q_depth (content s) - clip_level s"
proof (induction cs arbitrary: s)
  case Nil
  then show ?case by simp
next
  case (Cons c cs)
  show ?case
  proof (cases c)
    case (Push x1 y1 x2 y2)
    have "matched (clip_level (set_clipping ornd x1 y1 x2 y2 False s)) cs"
      using Cons.prems Push by (simp add: set_clipping_push)
    from Cons.IH [OF this] show ?thesis by (simp add: Push set_clipping_push)
  next
    case (Restore x1 y1 x2 y2)
    have "matched (clip_level (set_clipping ornd x1 y1 x2 y2 True s)) cs"
      using Cons.prems Restore by (simp add: set_clipping_restore)
    from Cons.IH [OF this] show ?thesis
      using Cons.prems Restore by (simp add: set_clipping_restore)
  qed
qed

lemma begin_page_level:
  "clip_level (begin_page ornd s) = 1" "q_depth (content (begin_page ornd s)) = 2"
  by (simp_all add: begin_page_def Let_def set_clipping_push emit_def)

lemma end_page_closes:
  assumes "0 \<le> clip_level s"
  shows "\<exists>s'. end_page s = Some s'
           \<and> pages s' = pages s @ [(Suc (next_id s),
                content (end_text s) @ replicate (nat (clip_level s)) Op_Q @ [Op_Q])]
           \<and> clip_level s' = - 1"
  using assms
  by (simp add: end_page_def Let_def close_clips_nonneg AllocateNewObjectID_def emit_def)

lemma set_clipping_inText [simp]: "inText (set_clipping ornd x1 y1 x2 y2 restore s) = False"
proof -
  obtain rx1 ry1 rx2 ry2 where r: "ornd (pixel s) (ox s) (oy s) (x1, y1, x2, y2) = (rx1, ry1, rx2, ry2)"
    by (cases "ornd (pixel s) (ox s) (oy s) (x1, y1, x2, y2)") auto
  show ?thesis by (simp add: set_clipping_def Let_def r)
qed

lemma clip_calls_inText: "\<not> inText s \<Longrightarrow> \<not> inText (clip_calls ornd cs s)"
proof (induction cs arbitrary: s)
  case Nil
  then show ?case by simp
next
  case (Cons c cs)
  then show ?case by (cases c) simp_all
qed

lemma begin_page_inText [simp]: "inText (begin_page ornd s) = False"
  by (simp add: begin_page_def Let_def)

lemma page_with_clips_stream:
  "\<exists>s'. page_with_clips ornd cs s = Some s'
     \<and> snd (last (pages s')) =
         content (clip_calls ornd cs (begin_page ornd s))
           @ replicate (nat (clip_level (clip_calls ornd cs (begin_page ornd s)))) Op_Q @ [Op_Q]
     \<and> clip_level s' = - 1"
proof -
  let ?s2 = "clip_calls ornd cs (begin_page ornd s)"
  have n: "0 \<le> clip_level ?s2" by (rule clip_calls_nonneg) (simp add: begin_page_level)
  have t: "end_text ?s2 = ?s2"
    by (rule end_text_outside_text) (simp add: clip_calls_inText)
  from end_page_closes [OF n] t show ?thesis
    unfolding page_with_clips_def by auto
qed

text \<open>
  Claim C1, at an input where the code breaks it: the first page of a document with two
  calls that restore and none that pushes. The first restore closes the rectangle that
  \<^verbatim>\<open>begin_page\<close> pushed; the second finds the level at 0 and, as the guard
  \<^verbatim>\<open>if (clip_level > 0) clip_level--\<close> wants it, leaves it there, but the \<^verbatim>\<open>Q\<close> on
  the line before the guard is written all the same. The page's content stream ends with
  three \<^verbatim>\<open>Q\<close> for two \<^verbatim>\<open>q\<close>: its depth at page close is -1, not 0, although
  \<^verbatim>\<open>end_page\<close> closes the open levels \<^emph>\<open>in order to have well formed PDF\<close>. (The member
  \<^verbatim>\<open>clip_level\<close> is -1 after every \<^verbatim>\<open>end_page\<close>, the loop's test having decremented
  it once more; the next \<^verbatim>\<open>begin_page\<close> sets it to 0.)
\<close>

theorem unmatched_restore_unbalanced:
  "page_with_clips no_round [Restore 0 0 0 0, Restore 0 0 0 0] (new_renderer 256 600 21 29.7) \<noteq> None
   \<and> snd (last (pages (the (page_with_clips no_round [Restore 0 0 0 0, Restore 0 0 0 0]
                              (new_renderer 256 600 21 29.7)))))
       = [Op_q, Op_cm (3 / 25) 0 0 (3 / 25) 0 0, Op_q, Op_re 0 0 4960 7015, Op_W, Op_n,
          Op_Q, Op_Q, Op_Q]
   \<and> q_depth (snd (last (pages (the (page_with_clips no_round [Restore 0 0 0 0, Restore 0 0 0 0]
                                       (new_renderer 256 600 21 29.7)))))) = - 1
   \<and> clip_level (the (page_with_clips no_round [Restore 0 0 0 0, Restore 0 0 0 0]
                         (new_renderer 256 600 21 29.7))) = - 1"
proof -
  let ?cs = "[Restore 0 0 0 0, Restore 0 0 0 0]"
  let ?s = "new_renderer 256 600 21 29.7"
  have b: "begin_page no_round ?s = page0"
    by (simp add: page0_def pdf_hummus_renderer_rep_def)
  have e: "end_text page0 = page0"
    by (rule end_text_outside_text) (simp add: page0_fields)
  let ?s1 = "set_clipping no_round 0 0 0 0 True page0"
  have s1: "content ?s1 = content page0 @ [Op_Q]" "clip_level ?s1 = 0"
    by (simp_all add: set_clipping_def Let_def no_round_def e page0_fields)
  have e1: "end_text ?s1 = ?s1" by (rule end_text_outside_text) simp
  let ?s2 = "set_clipping no_round 0 0 0 0 True ?s1"
  have s2: "content ?s2 = content page0 @ [Op_Q, Op_Q]" "clip_level ?s2 = 0"
    by (simp_all add: set_clipping_def [of _ _ _ _ _ _ ?s1] Let_def no_round_def e1 s1)
  have c: "clip_calls no_round ?cs (begin_page no_round ?s) = ?s2" by (simp add: b)
  obtain s' where s': "page_with_clips no_round ?cs ?s = Some s'"
    "snd (last (pages s')) = content ?s2 @ replicate (nat (clip_level ?s2)) Op_Q @ [Op_Q]"
    "clip_level s' = - 1"
    using page_with_clips_stream [of no_round ?cs ?s] unfolding c by blast
  have st: "snd (last (pages s')) =
      [Op_q, Op_cm (3 / 25) 0 0 (3 / 25) 0 0, Op_q, Op_re 0 0 4960 7015, Op_W, Op_n, Op_Q, Op_Q, Op_Q]"
    by (simp add: s'(2) s2 page0_fields)
  have t: "the (page_with_clips no_round ?cs ?s) = s'" by (simp add: s'(1))
  have nn: "page_with_clips no_round ?cs ?s \<noteq> None" by (simp add: s'(1))
  have q: "q_depth (snd (last (pages s'))) = - 1" unfolding st by simp
  show ?thesis unfolding t using nn st q s'(3) by blast
qed

text \<open>
  The other pages: where \<^verbatim>\<open>set_clipping\<close> is called to push and to restore, in any
  order, the clip level is never negative before the page is closed, and a restore at
  level 0 leaves the level at 0. When no call restores at level 0 (counting the rectangle
  that \<^verbatim>\<open>begin_page\<close> pushes, so the level starts at 1), \<^verbatim>\<open>end_page\<close> returns and the
  page's content stream is balanced: after the calls it gets one \<^verbatim>\<open>Q\<close> for each
  rectangle still open and the \<^verbatim>\<open>Q\<close> of the outermost \<^verbatim>\<open>q\<close>, and its depth is 0.
\<close>

lemma clip_stack_closed_at_page_end:
  "0 \<le> clip_level (clip_calls ornd cs (begin_page ornd s))
   \<and> (clip_level s0 = 0 \<longrightarrow> clip_level (set_clipping ornd x1 y1 x2 y2 True s0) = 0)
   \<and> (matched 1 cs \<longrightarrow>
        (\<exists>s'. page_with_clips ornd cs s = Some s'
           \<and> snd (last (pages s')) =
               content (clip_calls ornd cs (begin_page ornd s))
                 @ replicate (nat (clip_level (clip_calls ornd cs (begin_page ornd s)))) Op_Q
                 @ [Op_Q]
           \<and> q_depth (snd (last (pages s'))) = 0))"
proof (intro conjI impI)
  show n: "0 \<le> clip_level (clip_calls ornd cs (begin_page ornd s))"
    by (rule clip_calls_nonneg) (simp add: begin_page_level)
  show "clip_level (set_clipping ornd x1 y1 x2 y2 True s0) = 0" if "clip_level s0 = 0"
    using that by (simp add: set_clipping_restore)
  assume m: "matched 1 cs"
  let ?s2 = "clip_calls ornd cs (begin_page ornd s)"
  have "matched (clip_level (begin_page ornd s)) cs" using m by (simp add: begin_page_level)
  from clip_calls_matched [OF this, of ornd]
  have d: "q_depth (content ?s2) = clip_level ?s2 + 1" by (simp add: begin_page_level)
  obtain s' where s': "page_with_clips ornd cs s = Some s'"
    "snd (last (pages s')) = content ?s2 @ replicate (nat (clip_level ?s2)) Op_Q @ [Op_Q]"
    using page_with_clips_stream [of ornd cs s] by blast
  have "q_depth (snd (last (pages s'))) = 0"
    using n d by (simp add: s'(2))
  with s' show "\<exists>s'. page_with_clips ornd cs s = Some s'
           \<and> snd (last (pages s')) =
               content (clip_calls ornd cs (begin_page ornd s))
                 @ replicate (nat (clip_level (clip_calls ornd cs (begin_page ornd s)))) Op_Q
                 @ [Op_Q]
           \<and> q_depth (snd (last (pages s'))) = 0"
    by blast
qed

lemma clip_stack_closed_example:
  "matched 1 [Push 0 0 256 256, Push 0 0 256 256, Restore 0 0 0 0]
   \<and> page_with_clips no_round [Push 0 0 256 256, Push 0 0 256 256, Restore 0 0 0 0]
        (new_renderer 256 600 21 29.7) \<noteq> None
   \<and> q_depth (snd (last (pages (the (page_with_clips no_round
        [Push 0 0 256 256, Push 0 0 256 256, Restore 0 0 0 0] (new_renderer 256 600 21 29.7)))))) = 0"
proof -
  let ?cs = "[Push 0 0 256 256, Push 0 0 256 256, Restore 0 0 0 0]"
  have m: "matched 1 ?cs" by simp
  obtain s' where s': "page_with_clips no_round ?cs (new_renderer 256 600 21 29.7) = Some s'"
    "q_depth (snd (last (pages s'))) = 0"
    using clip_stack_closed_at_page_end [of no_round ?cs "new_renderer 256 600 21 29.7"] m
    by blast
  have t: "the (page_with_clips no_round ?cs (new_renderer 256 600 21 29.7)) = s'"
    by (simp add: s'(1))
  have nn: "page_with_clips no_round ?cs (new_renderer 256 600 21 29.7) \<noteq> None"
    by (simp add: s'(1))
  show ?thesis unfolding t using m nn s'(2) by blast
qed


subsection \<open>The image pool\<close>

lemma image_pdf_pool:
  "image_pool (image_pdf u w h x y cx1 cy1 cx2 cy2 a s) =
     (case image_pool s u of Some i \<Rightarrow> image_pool s | None \<Rightarrow> (image_pool s)(u \<mapsto> Suc (next_id s)))"
  "next_id (image_pdf u w h x y cx1 cy1 cx2 cy2 a s) =
     (case image_pool s u of Some i \<Rightarrow> next_id s | None \<Rightarrow> Suc (next_id s))"
  by (simp_all add: image_pdf_def Let_def AllocateNewObjectID_def split: option.splits)

lemma image_pdf_Do:
  "\<exists>sx sy. content (image_pdf u w h x y cx1 cy1 cx2 cy2 a s) =
     content (end_text s)
       @ [Op_q, Op_cm sx 0 0 sy (to_x s x) (to_y s y),
          Op_Do (the (image_pool (image_pdf u w h x y cx1 cy1 cx2 cy2 a s) u)), Op_Q]"
proof (cases "image_pool s u")
  case None
  then show ?thesis
    by (simp add: image_pdf_def Let_def AllocateNewObjectID_def end_text_next_id
        end_text_image_pool to_x_def to_y_def)
next
  case (Some i)
  then show ?thesis by (simp add: image_pdf_def Let_def)
qed

lemma image_pdf_pool_ok: "pool_ok s \<Longrightarrow> pool_ok (image_pdf u w h x y cx1 cy1 cx2 cy2 a s)"
proof (cases "image_pool s u")
  case (Some i)
  assume "pool_ok s"
  then show ?thesis using Some by (simp add: pool_ok_def image_pdf_pool)
next
  case None
  assume ok: "pool_ok s"
  have fresh: "\<And>v i. image_pool s v = Some i \<Longrightarrow> i \<noteq> Suc (next_id s)"
    using ok unfolding pool_ok_def by fastforce
  show ?thesis
    unfolding pool_ok_def image_pdf_pool None option.case
  proof (intro conjI allI impI)
    fix v i
    assume "((image_pool s)(u \<mapsto> Suc (next_id s))) v = Some i"
    then show "i \<le> Suc (next_id s)"
      using ok unfolding pool_ok_def by (cases "v = u") (auto simp: le_Suc_eq)
  next
    fix v v' i
    assume a: "((image_pool s)(u \<mapsto> Suc (next_id s))) v = Some i
        \<and> ((image_pool s)(u \<mapsto> Suc (next_id s))) v' = Some i"
    show "v = v'"
    proof (cases "v = u")
      case True
      then have "i = Suc (next_id s)" using a by simp
      then show ?thesis using a True fresh [of v'] by (cases "v' = u") auto
    next
      case False
      then have i: "image_pool s v = Some i" using a by simp
      then have "v' \<noteq> u" using a fresh [of v i] by auto
      then show ?thesis using a i ok unfolding pool_ok_def by auto
    qed
  qed
qed

lemma place_images_pool_ok: "pool_ok s \<Longrightarrow> pool_ok (place_images cs s)"
proof (induction cs arbitrary: s)
  case Nil
  then show ?case by simp
next
  case (Cons c cs)
  obtain u w h x y cx1 cy1 cx2 cy2 a where c: "c = (u, w, h, x, y, cx1, cy1, cx2, cy2, a)"
    by (cases c) auto
  show ?case using Cons.prems by (simp add: c Cons.IH image_pdf_pool_ok)
qed

lemma place_images_dom:
  "dom (image_pool (place_images cs s)) = dom (image_pool s) \<union> fst ` set cs"
proof (induction cs arbitrary: s)
  case Nil
  then show ?case by simp
next
  case (Cons c cs)
  obtain u w h x y cx1 cy1 cx2 cy2 a where c: "c = (u, w, h, x, y, cx1, cy1, cx2, cy2, a)"
    by (cases c) auto
  have "dom (image_pool (image_pdf u w h x y cx1 cy1 cx2 cy2 a s)) = insert u (dom (image_pool s))"
    by (auto simp: image_pdf_pool split: option.splits if_splits)
  then show ?case by (simp add: c Cons.IH)
qed

lemma place_images_stable:
  "image_pool s u = Some i \<Longrightarrow> image_pool (place_images cs s) u = Some i"
proof (induction cs arbitrary: s)
  case Nil
  then show ?case by simp
next
  case (Cons c cs)
  obtain u' w h x y cx1 cy1 cx2 cy2 a where c: "c = (u', w, h, x, y, cx1, cy1, cx2, cy2, a)"
    by (cases c) auto
  have "image_pool (image_pdf u' w h x y cx1 cy1 cx2 cy2 a s) u = Some i"
    using Cons.prems by (auto simp: image_pdf_pool split: option.splits)
  then show ?case by (simp add: c Cons.IH)
qed

lemma place_images_next_id:
  "next_id (place_images cs s) = next_id s + card (fst ` set cs - dom (image_pool s))"
proof (induction cs arbitrary: s)
  case Nil
  then show ?case by simp
next
  case (Cons c cs)
  obtain u w h x y cx1 cy1 cx2 cy2 a where c: "c = (u, w, h, x, y, cx1, cy1, cx2, cy2, a)"
    by (cases c) auto
  let ?s1 = "image_pdf u w h x y cx1 cy1 cx2 cy2 a s"
  have d1: "dom (image_pool ?s1) = insert u (dom (image_pool s))"
    by (auto simp: image_pdf_pool split: option.splits if_splits)
  have fin: "finite (fst ` set cs - insert u (dom (image_pool s)))" by simp
  show ?case
  proof (cases "u \<in> dom (image_pool s)")
    case True
    then have "next_id ?s1 = next_id s" by (auto simp: image_pdf_pool)
    moreover have "fst ` set (c # cs) - dom (image_pool s) = fst ` set cs - insert u (dom (image_pool s))"
      using True by (auto simp: c)
    ultimately show ?thesis by (simp add: c Cons.IH d1 del: set_simps image_insert)
  next
    case False
    then have "next_id ?s1 = Suc (next_id s)" by (auto simp: image_pdf_pool domIff)
    moreover have "fst ` set (c # cs) - dom (image_pool s)
        = insert u (fst ` set cs - insert u (dom (image_pool s)))"
      using False by (auto simp: c)
    moreover have "u \<notin> fst ` set cs - insert u (dom (image_pool s))" by simp
    ultimately show ?thesis
      using fin by (simp add: c Cons.IH d1 del: set_simps image_insert)
  qed
qed

text \<open>
  Claim C6. Starting from a renderer whose pool is as the registry leaves it
  (\<open>pool_ok\<close>), after any list of \<^verbatim>\<open>image\<close> calls:
  \<^item> the keys of the pool are the keys it had and the urls placed, whatever the order and
    the number of placements of each, so two lists with the same set of urls give the
    same set of pooled images;
  \<^item> the registry has handed out exactly one new identifier for each url that was not in
    the pool, and an entry never changes once made;
  \<^item> two different urls never have the same identifier;
  \<^item> every placement refers (operator \<^verbatim>\<open>Do\<close>) to the identifier pooled for its url, so
    two placements of one url refer to the same object.
  (\<^verbatim>\<open>flush_images\<close> later writes one object for each entry of the pool, under the
  entry's identifier.)
\<close>

theorem images_one_resource_per_source:
  assumes "pool_ok s"
  shows "dom (image_pool (place_images cs s)) = dom (image_pool s) \<union> fst ` set cs
    \<and> (fst ` set cs = fst ` set cs' \<longrightarrow>
         dom (image_pool (place_images cs s)) = dom (image_pool (place_images cs' s)))
    \<and> next_id (place_images cs s) = next_id s + card (fst ` set cs - dom (image_pool s))
    \<and> (\<forall>u i. image_pool s u = Some i \<longrightarrow> image_pool (place_images cs s) u = Some i)
    \<and> (\<forall>u v. u \<in> fst ` set cs \<and> v \<in> fst ` set cs \<and> u \<noteq> v \<longrightarrow>
          image_pool (place_images cs s) u \<noteq> None
          \<and> image_pool (place_images cs s) u \<noteq> image_pool (place_images cs s) v)
    \<and> (\<exists>sx sy. content (image_pdf u w h x y cx1 cy1 cx2 cy2 a s) =
          content (end_text s)
            @ [Op_q, Op_cm sx 0 0 sy (to_x s x) (to_y s y),
               Op_Do (the (image_pool (image_pdf u w h x y cx1 cy1 cx2 cy2 a s) u)), Op_Q])
    \<and> image_pool (image_pdf u w' h' x' y' cx1' cy1' cx2' cy2' a'
                     (image_pdf u w h x y cx1 cy1 cx2 cy2 a s)) u
        = image_pool (image_pdf u w h x y cx1 cy1 cx2 cy2 a s) u
    \<and> next_id (image_pdf u w' h' x' y' cx1' cy1' cx2' cy2' a'
                  (image_pdf u w h x y cx1 cy1 cx2 cy2 a s))
        = next_id (image_pdf u w h x y cx1 cy1 cx2 cy2 a s)"
proof -
  have ok: "pool_ok (place_images cs s)" by (rule place_images_pool_ok [OF assms])
  have distinct: "\<forall>u v. u \<in> fst ` set cs \<and> v \<in> fst ` set cs \<and> u \<noteq> v \<longrightarrow>
          image_pool (place_images cs s) u \<noteq> None
          \<and> image_pool (place_images cs s) u \<noteq> image_pool (place_images cs s) v"
  proof (intro allI impI)
    fix u v
    assume a: "u \<in> fst ` set cs \<and> v \<in> fst ` set cs \<and> u \<noteq> v"
    then have "u \<in> dom (image_pool (place_images cs s))" "v \<in> dom (image_pool (place_images cs s))"
      by (simp_all add: place_images_dom)
    then obtain i j where ij: "image_pool (place_images cs s) u = Some i"
      "image_pool (place_images cs s) v = Some j"
      by auto
    have "i \<noteq> j" using ok a ij unfolding pool_ok_def by auto
    then show "image_pool (place_images cs s) u \<noteq> None
          \<and> image_pool (place_images cs s) u \<noteq> image_pool (place_images cs s) v"
      using ij by simp
  qed
  have twice: "image_pool (image_pdf u w' h' x' y' cx1' cy1' cx2' cy2' a'
                     (image_pdf u w h x y cx1 cy1 cx2 cy2 a s)) u
        = image_pool (image_pdf u w h x y cx1 cy1 cx2 cy2 a s) u"
    "next_id (image_pdf u w' h' x' y' cx1' cy1' cx2' cy2' a'
                  (image_pdf u w h x y cx1 cy1 cx2 cy2 a s))
        = next_id (image_pdf u w h x y cx1 cy1 cx2 cy2 a s)"
    by (simp_all add: image_pdf_pool split: option.splits)
  show ?thesis
    using place_images_dom [of cs s] place_images_dom [of cs' s] place_images_next_id [of cs s]
      place_images_stable [of s _ _ cs] distinct image_pdf_Do [of u w h x y cx1 cy1 cx2 cy2 a s] twice
    by (intro conjI) (simp_all, blast)
qed

theorem images_one_resource_witness:
  "pool_ok page0
   \<and> dom (image_pool (place_images
        [(''a.eps'', 256, 256, 0, 0, 0, 0, 1, 1, 255), (''b.png'', 256, 256, 0, 0, 0, 0, 1, 1, 255),
         (''a.eps'', 512, 512, 256, 0, 0, 0, 1, 1, 255)] page0)) = {''a.eps'', ''b.png''}
   \<and> next_id (place_images
        [(''a.eps'', 256, 256, 0, 0, 0, 0, 1, 1, 255), (''b.png'', 256, 256, 0, 0, 0, 0, 1, 1, 255),
         (''a.eps'', 512, 512, 256, 0, 0, 0, 1, 1, 255)] page0) = 2"
proof -
  have ok: "pool_ok page0" by (simp add: pool_ok_def page0_fields)
  have k: "fst ` set [(''a.eps'', 256::int, 256::int, 0::int, 0::int, 0::real, 0::real, 1::real, 1::real, 255::int),
      (''b.png'', 256, 256, 0, 0, 0, 0, 1, 1, 255), (''a.eps'', 512, 512, 256, 0, 0, 0, 1, 1, 255)]
      = {''a.eps'', ''b.png''}"
    by auto
  show ?thesis
    using images_one_resource_per_source [OF ok, of
        "[(''a.eps'', 256, 256, 0, 0, 0, 0, 1, 1, 255), (''b.png'', 256, 256, 0, 0, 0, 0, 1, 1, 255),
          (''a.eps'', 512, 512, 256, 0, 0, 0, 1, 1, 255)]"] ok
    unfolding k by (simp add: page0_fields)
qed


subsection \<open>Label identifiers\<close>

lemma get_label_id_fields [simp]:
  "dpi (snd (get_label_id l s)) = dpi s" "page_id (snd (get_label_id l s)) = page_id s"
  "dests (snd (get_label_id l s)) = dests s" "next_id (snd (get_label_id l s)) = next_id s"
  "objects (snd (get_label_id l s)) = objects s" "annot_list (snd (get_label_id l s)) = annot_list s"
  by (simp_all add: get_label_id_def Let_def)

lemma get_label_id_result:
  "label_id (snd (get_label_id l s)) l = Some (fst (get_label_id l s))"
  by (auto simp: get_label_id_def Let_def)

lemma get_label_id_known:
  "label_id s l = Some i \<Longrightarrow> get_label_id l s = (i, s)"
  by (auto simp: get_label_id_def Let_def)

lemma get_label_id_stable:
  "label_id s l = Some i \<Longrightarrow> label_id (snd (get_label_id l' s)) l = Some i"
  by (auto simp: get_label_id_def Let_def)

lemma get_label_id_labels_are:
  assumes "labels_are s ks"
  shows "labels_are (snd (get_label_id l s)) (add_new ks l)"
proof (cases "l \<in> set ks")
  case True
  then have "l \<in> dom (label_id s)" using assms by (simp add: labels_are_def)
  then have "snd (get_label_id l s) = s" by (simp add: get_label_id_def Let_def)
  then show ?thesis using True assms by (simp add: add_new_def)
next
  case False
  then have nd: "l \<notin> dom (label_id s)" using assms by (simp add: labels_are_def)
  let ?s1 = "s\<lparr>label_id := (label_id s)(l \<mapsto> label_count s), label_count := label_count s + 1\<rparr>"
  have s1: "snd (get_label_id l s) = ?s1" using nd by (simp add: get_label_id_def Let_def)
  have "\<forall>i < length (ks @ [l]). label_id ?s1 ((ks @ [l]) ! i) = Some (int i)"
  proof (intro allI impI)
    fix i
    assume "i < length (ks @ [l])"
    then consider "i < length ks" | "i = length ks" by fastforce
    then show "label_id ?s1 ((ks @ [l]) ! i) = Some (int i)"
    proof cases
      case 1
      then have "ks ! i \<noteq> l" using False by (metis nth_mem)
      then show ?thesis using 1 assms by (simp add: labels_are_def nth_append)
    next
      case 2
      then show ?thesis using assms by (simp add: labels_are_def)
    qed
  qed
  then show ?thesis
    using False assms unfolding s1 add_new_def labels_are_def by auto
qed

lemma label_refs_labels_are:
  "labels_are s ks \<Longrightarrow> labels_are (label_refs ls s) (foldl add_new ks ls)"
proof (induction ls arbitrary: s ks)
  case Nil
  then show ?case by simp
next
  case (Cons l ls)
  show ?case using Cons.IH [OF get_label_id_labels_are [OF Cons.prems, of l]] by simp
qed

lemma set_foldl_add_new: "set (foldl add_new ks ls) = set ks \<union> set ls"
  by (induction ls arbitrary: ks) (auto simp: add_new_def)

lemma dest_entries_snd_stable:
  "label_id s l = Some i \<Longrightarrow> label_id (snd (dest_entries ds acc s)) l = Some i"
proof (induction ds arbitrary: acc s)
  case Nil
  then show ?case by simp
next
  case (Cons d ds)
  obtain l' p x y where d: "d = (l', p, x, y)" by (cases d) auto
  obtain j s1 where g: "get_label_id l' s = (j, s1)" by (cases "get_label_id l' s") auto
  have "label_id s1 l = Some i"
    using get_label_id_stable [OF Cons.prems, of l'] g by simp
  from Cons.IH [OF this] show ?case by (simp add: d g)
qed

lemma dest_entries_keeps:
  "next_id (snd (dest_entries ds acc s)) = next_id s
   \<and> objects (snd (dest_entries ds acc s)) = objects s
   \<and> annot_list (snd (dest_entries ds acc s)) = annot_list s"
proof (induction ds arbitrary: acc s)
  case Nil
  show ?case by simp
next
  case (Cons d ds)
  obtain l' p x y where d: "d = (l', p, x, y)" by (cases d) auto
  obtain j s1 where g: "get_label_id l' s = (j, s1)" by (cases "get_label_id l' s") auto
  have f: "next_id s1 = next_id s" "objects s1 = objects s" "annot_list s1 = annot_list s"
    using get_label_id_fields [of l' s] g by simp_all
  show ?case by (simp add: d g Cons.IH f)
qed

lemma dest_entries_fields [simp]:
  "next_id (snd (dest_entries ds acc s)) = next_id s"
  "objects (snd (dest_entries ds acc s)) = objects s"
  "annot_list (snd (dest_entries ds acc s)) = annot_list s"
  using dest_entries_keeps [of ds acc s] by simp_all

lemma dest_entries_ids:
  "map fst (fst (dest_entries ds acc s)) =
     map fst acc @ map (\<lambda>d. the (label_id (snd (dest_entries ds acc s)) (fst d))) ds"
proof (induction ds arbitrary: acc s)
  case Nil
  then show ?case by simp
next
  case (Cons d ds)
  obtain l p x y where d: "d = (l, p, x, y)" by (cases d) auto
  obtain j s1 where g: "get_label_id l s = (j, s1)" by (cases "get_label_id l s") auto
  have "label_id s1 l = Some j" using get_label_id_result [of l s] g by simp
  then have "label_id (snd (dest_entries ds
      (acc @ [(j, page_of s1 p, 72 / real_of_int (dpi s1) * real_of_int x,
               72 / real_of_int (dpi s1) * real_of_int y)]) s1)) l = Some j"
    by (rule dest_entries_snd_stable)
  then show ?case by (simp add: d g Cons.IH)
qed

lemma label_refs_stable:
  "label_id s l = Some i \<Longrightarrow> label_id (label_refs ls s) l = Some i"
proof (induction ls arbitrary: s)
  case Nil
  then show ?case by simp
next
  case (Cons l' ls)
  show ?case using Cons.IH [OF get_label_id_stable [OF Cons.prems, of l']] by simp
qed

lemma anchor_fields [simp]:
  "dests (anchor label x y s) = dests s @ [(prepare_text label, page_num s, trunc (to_x s x), trunc (to_y s y))]"
  "label_id (anchor label x y s) = label_id s" "next_id (anchor label x y s) = next_id s"
  "annot_list (anchor label x y s) = annot_list s" "objects (anchor label x y s) = objects s"
  by (simp_all add: anchor_def Let_def)

lemma href_label:
  assumes "take 1 label = ''#''"
  shows "\<exists>i. map_option an_target (annot_list (href pr label x1 y1 x2 y2 s) (Suc (next_id s))) = Some (Dest i)
           \<and> label_id (href pr label x1 y1 x2 y2 s) (prepare_text label) = Some i"
    and "dests (href pr label x1 y1 x2 y2 s) = dests s"
proof -
  let ?s1 = "s\<lparr>next_id := Suc (next_id s)\<rparr>"
  obtain i s2 where g: "get_label_id (prepare_text label) ?s1 = (i, s2)"
    by (cases "get_label_id (prepare_text label) ?s1") auto
  have l: "label_id s2 (prepare_text label) = Some i"
    using get_label_id_result [of "prepare_text label" ?s1] g by simp
  have a: "annot_list s2 = annot_list s" "dests s2 = dests s"
    using get_label_id_fields [of "prepare_text label" ?s1] g by simp_all
  show "\<exists>i. map_option an_target (annot_list (href pr label x1 y1 x2 y2 s) (Suc (next_id s))) = Some (Dest i)
           \<and> label_id (href pr label x1 y1 x2 y2 s) (prepare_text label) = Some i"
    using assms l by (simp add: href_def Let_def AllocateNewObjectID_def g)
  show "dests (href pr label x1 y1 x2 y2 s) = dests s"
    using assms a by (simp add: href_def Let_def AllocateNewObjectID_def g)
qed

lemma flush_dests_ids:
  assumes "dests s \<noteq> []"
  shows "\<exists>ds. objects (flush_dests s) = objects s @ [(destId (flush_dests s), DestsDict ds)]
           \<and> map fst ds = map (\<lambda>d. the (label_id (flush_dests s) (fst d))) (dests s)"
    and "annot_list (flush_dests s) = annot_list s"
    and "label_id s l = Some i \<Longrightarrow> label_id (flush_dests s) l = Some i"
proof -
  obtain dict s1 where e: "dest_entries (dests s) [] s = (dict, s1)"
    by (cases "dest_entries (dests s) [] s") auto
  have ids: "map fst dict = map (\<lambda>d. the (label_id s1 (fst d))) (dests s)"
    using dest_entries_ids [of "dests s" "[]" s] e by simp
  have k: "objects s1 = objects s" "annot_list s1 = annot_list s"
    using dest_entries_fields [of "dests s" "[]" s] e by simp_all
  have f: "flush_dests s = s1\<lparr>next_id := Suc (next_id s1), destId := Suc (next_id s1),
      objects := objects s1 @ [(Suc (next_id s1), DestsDict dict)]\<rparr>"
    using assms by (simp add: flush_dests_def Let_def e AllocateNewObjectID_def)
  show "\<exists>ds. objects (flush_dests s) = objects s @ [(destId (flush_dests s), DestsDict ds)]
           \<and> map fst ds = map (\<lambda>d. the (label_id (flush_dests s) (fst d))) (dests s)"
    using ids k by (simp add: f)
  show "annot_list (flush_dests s) = annot_list s" using k by (simp add: f)
  show "label_id (flush_dests s) l = Some i" if "label_id s l = Some i"
    using dest_entries_snd_stable [OF that, of "dests s" "[]"] e by (simp add: f)
qed

lemma link_and_anchors:
  assumes "take 1 label = ''#''"
  shows "\<exists>i ds.
      map_option an_target
        (annot_list (flush_dests (href pr label x1 y1 x2 y2 (anchor label xb yb (anchor label xa ya s))))
           (Suc (next_id s))) = Some (Dest i)
      \<and> last (objects (flush_dests (href pr label x1 y1 x2 y2 (anchor label xb yb (anchor label xa ya s)))))
          = (destId (flush_dests (href pr label x1 y1 x2 y2 (anchor label xb yb (anchor label xa ya s)))),
             DestsDict ds)
      \<and> length ds = length (dests s) + 2
      \<and> fst (ds ! length (dests s)) = i
      \<and> fst (ds ! Suc (length (dests s))) = i"
proof -
  let ?s2 = "anchor label xb yb (anchor label xa ya s)"
  let ?s3 = "href pr label x1 y1 x2 y2 ?s2"
  let ?s4 = "flush_dests ?s3"
  obtain i where i: "map_option an_target (annot_list ?s3 (Suc (next_id s))) = Some (Dest i)"
    "label_id ?s3 (prepare_text label) = Some i"
    using href_label(1) [OF assms, of pr x1 y1 x2 y2 ?s2] by auto
  have d3: "dests ?s3 = dests s @ [(prepare_text label, page_num s, trunc (to_x s xa), trunc (to_y s ya)),
      (prepare_text label, page_num (anchor label xa ya s), trunc (to_x (anchor label xa ya s) xb),
       trunc (to_y (anchor label xa ya s) yb))]"
    by (simp add: href_label(2) [OF assms])
  then have ne: "dests ?s3 \<noteq> []" by simp
  obtain ds where ds: "objects ?s4 = objects ?s3 @ [(destId ?s4, DestsDict ds)]"
    "map fst ds = map (\<lambda>d. the (label_id ?s4 (fst d))) (dests ?s3)"
    using flush_dests_ids(1) [OF ne] by blast
  have l4: "label_id ?s4 (prepare_text label) = Some i"
    by (rule flush_dests_ids(3) [OF ne i(2)])
  have len: "length ds = length (dests s) + 2"
    using arg_cong [OF ds(2), of length] by (simp add: d3)
  have m: "map fst ds = map (\<lambda>d. the (label_id ?s4 (fst d))) (dests s) @ [i, i]"
    unfolding ds(2) d3 by (simp add: l4)
  have n1: "fst (ds ! length (dests s)) = i"
    using arg_cong [OF m, of "\<lambda>xs. xs ! length (dests s)"] len by (simp add: nth_append)
  have n2: "fst (ds ! Suc (length (dests s))) = i"
    using arg_cong [OF m, of "\<lambda>xs. xs ! Suc (length (dests s))"] len by (simp add: nth_append)
  have a4: "map_option an_target (annot_list ?s4 (Suc (next_id s))) = Some (Dest i)"
    using i(1) by (simp add: flush_dests_ids(2) [OF ne])
  have "last (objects ?s4) = (destId ?s4, DestsDict ds)" by (simp add: ds(1))
  with a4 len n1 n2 show ?thesis by blast
qed

lemma href_uri:
  assumes "take 1 label \<noteq> ''#''"
  shows "map_option an_target (annot_list (href pr label x1 y1 x2 y2 s) (Suc (next_id s)))
           = Some (URI (prepare_text label))"
    and "label_id (href pr label x1 y1 x2 y2 s) = label_id s"
    and "label_count (href pr label x1 y1 x2 y2 s) = label_count s"
  using assms by (simp_all add: href_def Let_def AllocateNewObjectID_def)

text \<open>
  Claim C8, as the specification states it, on the first page of a document, for the label
  \<open>sec1\<close>. Anchored twice and then the target of a link, the label has both destination
  entries written under identifier 0, but the link is written as a URI action and carries no
  identifier: \<^verbatim>\<open>href\<close> refers to a label only when \<^verbatim>\<open>starts (label, "#")\<close>. And a link to
  \<open>#sec1\<close> refers to the string with its \<open>#\<close>: it is written with identifier 0, the
  destination entry of the anchor \<open>sec1\<close> under identifier 1.
\<close>

theorem link_without_hash_counterexample:
  "map_option an_target
     (annot_list (flush_dests (href False ''sec1'' 0 0 0 0
        (anchor ''sec1'' 0 0 (anchor ''sec1'' 0 0 page0)))) 1)
     = Some (URI ''sec1'')
   \<and> map dest_ids (map snd (objects (flush_dests (href False ''sec1'' 0 0 0 0
        (anchor ''sec1'' 0 0 (anchor ''sec1'' 0 0 page0))))))
     = [[0, 0]]
   \<and> map_option an_target
     (annot_list (flush_dests (href False ''#sec1'' 0 0 0 0 (anchor ''sec1'' 0 0 page0))) 1)
     = Some (Dest 0)
   \<and> map dest_ids (map snd (objects (flush_dests (href False ''#sec1'' 0 0 0 0
        (anchor ''sec1'' 0 0 page0)))))
     = [[1]]"
  by (simp add: flush_dests_def href_def anchor_def get_label_id_def Let_def AllocateNewObjectID_def
      page0_eq new_renderer_def prepare_text_def prepare_char_def to_x_def to_y_def trunc_def
      signed_divide_int_def page_of_def)

text \<open>
  Claim C8, amended. \<^verbatim>\<open>get_label_id\<close> gives a label that is not yet in the table the
  value of \<^verbatim>\<open>label_count\<close> and increments the counter; a label in the table keeps its
  identifier through every later reference, to itself or to other labels. Hence, from the
  empty table of a new document, the labels referred to have the identifiers 0, 1, 2, ...
  in the order of their first use. In particular, when a label is anchored twice,
  \<^verbatim>\<open>flush_dests\<close> writes both destination entries under one identifier. A link whose label
  starts with \<open>#\<close> is written with the identifier of its label string, the \<open>#\<close>
  included: this is the identifier of the destination entries of the anchors of the same
  string. A link whose label does not start with \<open>#\<close> is written as a URI action: it
  refers to no label and leaves the label table as it is.
\<close>

theorem label_ids_dense_and_stable:
  "(l \<notin> dom (label_id s) \<longrightarrow>
       fst (get_label_id l s) = label_count s
       \<and> label_count (snd (get_label_id l s)) = label_count s + 1)
   \<and> fst (get_label_id l (label_refs ls (snd (get_label_id l s)))) = fst (get_label_id l s)
   \<and> (label_id s = Map.empty \<and> label_count s = 0 \<longrightarrow>
        distinct (first_uses ls)
        \<and> set (first_uses ls) = set ls
        \<and> dom (label_id (label_refs ls s)) = set ls
        \<and> label_count (label_refs ls s) = int (length (first_uses ls))
        \<and> (\<forall>i < length (first_uses ls). label_id (label_refs ls s) (first_uses ls ! i) = Some (int i)))
   \<and> (take 1 label = ''#'' \<longrightarrow>
        (\<exists>i ds.
           map_option an_target
             (annot_list (flush_dests (href pr label x1 y1 x2 y2 (anchor label xb yb (anchor label xa ya s))))
                (Suc (next_id s))) = Some (Dest i)
           \<and> last (objects (flush_dests (href pr label x1 y1 x2 y2 (anchor label xb yb (anchor label xa ya s)))))
               = (destId (flush_dests (href pr label x1 y1 x2 y2 (anchor label xb yb (anchor label xa ya s)))),
                  DestsDict ds)
           \<and> length ds = length (dests s) + 2
           \<and> fst (ds ! length (dests s)) = i
           \<and> fst (ds ! Suc (length (dests s))) = i))
   \<and> (take 1 label \<noteq> ''#'' \<longrightarrow>
        map_option an_target (annot_list (href pr label x1 y1 x2 y2 s) (Suc (next_id s)))
          = Some (URI (prepare_text label))
        \<and> label_id (href pr label x1 y1 x2 y2 s) = label_id s
        \<and> label_count (href pr label x1 y1 x2 y2 s) = label_count s)"
proof (intro conjI impI)
  assume "take 1 label \<noteq> ''#''"
  then show "map_option an_target (annot_list (href pr label x1 y1 x2 y2 s) (Suc (next_id s)))
          = Some (URI (prepare_text label))"
    "label_id (href pr label x1 y1 x2 y2 s) = label_id s"
    "label_count (href pr label x1 y1 x2 y2 s) = label_count s"
    by (rule href_uri)+
next
  assume "l \<notin> dom (label_id s)"
  then show "fst (get_label_id l s) = label_count s"
    "label_count (snd (get_label_id l s)) = label_count s + 1"
    by (simp_all add: get_label_id_def Let_def)
next
  have "label_id (label_refs ls (snd (get_label_id l s))) l = Some (fst (get_label_id l s))"
    by (rule label_refs_stable [OF get_label_id_result])
  then show "fst (get_label_id l (label_refs ls (snd (get_label_id l s)))) = fst (get_label_id l s)"
    by (simp add: get_label_id_known)
next
  assume e: "label_id s = Map.empty \<and> label_count s = 0"
  then have "labels_are s []" by (simp add: labels_are_def)
  from label_refs_labels_are [OF this, of ls]
  have la: "labels_are (label_refs ls s) (first_uses ls)" by (simp add: first_uses_def)
  show "distinct (first_uses ls)" using la by (simp add: labels_are_def)
  show st: "set (first_uses ls) = set ls" by (simp add: first_uses_def set_foldl_add_new)
  show "dom (label_id (label_refs ls s)) = set ls" using la st by (simp add: labels_are_def)
  show "label_count (label_refs ls s) = int (length (first_uses ls))"
    using la by (simp add: labels_are_def)
  show "\<forall>i < length (first_uses ls). label_id (label_refs ls s) (first_uses ls ! i) = Some (int i)"
    using la by (simp add: labels_are_def)
next
  assume "take 1 label = ''#''"
  then show "\<exists>i ds.
           map_option an_target
             (annot_list (flush_dests (href pr label x1 y1 x2 y2 (anchor label xb yb (anchor label xa ya s))))
                (Suc (next_id s))) = Some (Dest i)
           \<and> last (objects (flush_dests (href pr label x1 y1 x2 y2 (anchor label xb yb (anchor label xa ya s)))))
               = (destId (flush_dests (href pr label x1 y1 x2 y2 (anchor label xb yb (anchor label xa ya s)))),
                  DestsDict ds)
           \<and> length ds = length (dests s) + 2
           \<and> fst (ds ! length (dests s)) = i
           \<and> fst (ds ! Suc (length (dests s))) = i"
    by (rule link_and_anchors)
qed

theorem label_ids_witness:
  "''sec2'' \<notin> dom (label_id page0)
   \<and> fst (get_label_id ''sec2'' page0) = 0
   \<and> label_id (label_refs [''sec1'', ''sec2'', ''sec1'', ''sec3''] page0) ''sec2'' = Some 1
   \<and> label_id (label_refs [''sec1'', ''sec2'', ''sec1'', ''sec3''] page0) ''sec3'' = Some 2
   \<and> label_count (label_refs [''sec1'', ''sec2'', ''sec1'', ''sec3''] page0) = 3
   \<and> take 1 ''#sec1'' = ''#''
   \<and> map_option an_target (annot_list (href False ''sec1'' 0 0 0 0 page0) 1) = Some (URI ''sec1'')"
proof -
  have u: "map_option an_target (annot_list (href False ''sec1'' 0 0 0 0 page0) 1) = Some (URI ''sec1'')"
    using label_ids_dense_and_stable [of "''sec2''" page0 "[]" "''sec1''" False 0 0 0 0]
    by (simp add: page0_fields prepare_text_def prepare_char_def)
  have e: "label_id page0 = Map.empty \<and> label_count page0 = 0" by (simp add: page0_fields)
  have n: "''sec2'' \<notin> dom (label_id page0)" by (simp add: page0_fields)
  have f: "first_uses [''sec1'', ''sec2'', ''sec1'', ''sec3''] = [''sec1'', ''sec2'', ''sec3'']"
    by (simp add: first_uses_def add_new_def)
  note t = label_ids_dense_and_stable [of "''sec2''" page0 "[''sec1'', ''sec2'', ''sec1'', ''sec3'']"
      "''#sec1''"]
  have a: "fst (get_label_id ''sec2'' page0) = 0" using t n e by simp
  have all: "\<forall>i < 3. label_id (label_refs [''sec1'', ''sec2'', ''sec1'', ''sec3''] page0)
      ([''sec1'', ''sec2'', ''sec3''] ! i) = Some (int i)"
    and c: "label_count (label_refs [''sec1'', ''sec2'', ''sec1'', ''sec3''] page0) = 3"
    using t e unfolding f by simp_all
  have b1: "label_id (label_refs [''sec1'', ''sec2'', ''sec1'', ''sec3''] page0) ''sec2'' = Some 1"
    using all [rule_format, of 1] by simp
  have b2: "label_id (label_refs [''sec1'', ''sec2'', ''sec1'', ''sec3''] page0) ''sec3'' = Some 2"
    using all [rule_format, of 2] by simp
  show ?thesis using n a b1 b2 c u by simp
qed


subsection \<open>The definition of a Type 3 font\<close>

lemma update_bbox_keeps [simp]:
  "fn (update_bbox llx lly urx ury f) = fn f" "used_chars (update_bbox llx lly urx ury f) = used_chars f"
  "firstchar (update_bbox llx lly urx ury f) = firstchar f"
  "lastchar (update_bbox llx lly urx ury f) = lastchar f"
  "fontId (update_bbox llx lly urx ury f) = fontId f"
  by (simp_all add: update_bbox_def Let_def)

lemma write_glyphs_total:
  "\<forall>c \<in> set chs. get (fn f) c \<noteq> None \<Longrightarrow>
   \<exists>f' objs'. write_glyphs chs f nid objs = Some (map (\<lambda>k. nid + Suc k) [0 ..< length chs], f',
                  nid + length chs, objs')
     \<and> fn f' = fn f \<and> used_chars f' = used_chars f \<and> firstchar f' = firstchar f
     \<and> lastchar f' = lastchar f \<and> fontId f' = fontId f"
proof (induction chs arbitrary: f nid objs)
  case Nil
  then show ?case by simp
next
  case (Cons ch chs)
  obtain gl where gl: "get (fn f) ch = Some gl" using Cons.prems by auto
  let ?f1 = "update_bbox (- xoff gl) (yoff gl - height gl + 1) (width gl - xoff gl + 1) (yoff gl + 1) f"
  let ?cp = "\<lparr>cp_lwidth = lwidth gl, cp_bbox = (- xoff gl, yoff gl - height gl + 1,
      width gl - xoff gl + 1, yoff gl + 1), cp_cwidth = width gl, cp_cheight = height gl\<rparr>"
  have "\<forall>c \<in> set chs. get (fn ?f1) c \<noteq> None" using Cons.prems by simp
  from Cons.IH [OF this, of "Suc nid" "objs @ [(Suc nid, CharProc ?cp)]"]
  obtain f' objs' where r:
    "write_glyphs chs ?f1 (Suc nid) (objs @ [(Suc nid, CharProc ?cp)])
       = Some (map (\<lambda>k. Suc nid + Suc k) [0 ..< length chs], f', Suc nid + length chs, objs')"
    "fn f' = fn f" "used_chars f' = used_chars f" "firstchar f' = firstchar f"
    "lastchar f' = lastchar f" "fontId f' = fontId f"
    by auto
  have m: "map (\<lambda>k. nid + Suc k) [0 ..< length (ch # chs)]
      = Suc nid # map (\<lambda>k. Suc nid + Suc k) [0 ..< length chs]"
    by (simp add: upt_rec [of 0] map_Suc_upt [symmetric] del: upt_Suc)
  show ?case
    unfolding m using r by (simp add: gl write_char_def Let_def)
qed

lemma widths_length: "widths f xs = Some ws \<Longrightarrow> length ws = length xs"
  by (induction xs arbitrary: ws) (auto split: if_splits option.splits)

lemma widths_unused:
  "widths f xs = Some ws \<Longrightarrow> i < length xs \<Longrightarrow> xs ! i \<notin> set (used_chars f) \<Longrightarrow> ws ! i = Zero"
proof (induction xs arbitrary: ws i)
  case Nil
  then show ?case by simp
next
  case (Cons x xs)
  then show ?case by (cases i) (auto split: if_splits option.splits)
qed

lemma sort_65_66_70:
  assumes "set xs = {65, 66, 70 :: int}" "distinct xs"
  shows "sort xs = [65, 66, 70]"
proof (rule sorted_distinct_set_unique)
  show "sorted (sort xs)" by simp
  show "distinct (sort xs)" using assms(2) by simp
  show "sorted [65, 66, 70 :: int]" by simp
  show "distinct [65, 66, 70 :: int]" by simp
  show "set (sort xs) = set [65, 66, 70 :: int]" using assms(1) by simp
qed

text \<open>
  Claim C4. For a Type 3 font whose used character codes are 65, 66 and 70 (in whatever
  order the hash map enumerates them), each with a glyph, \<^verbatim>\<open>write_definition\<close> writes, as
  its last object and under the font's identifier, a font dictionary with
  \<^verbatim>\<open>/FirstChar\<close> 65 and \<^verbatim>\<open>/LastChar\<close> 70; \<^verbatim>\<open>/Widths\<close> has six entries, the glyphs'
  \<^verbatim>\<open>lwidth\<close> at 65, 66 and 70 and zero at 67, 68 and 69; \<^verbatim>\<open>/Differences\<close> is
  \<^verbatim>\<open>65 /ch65 /ch66 70 /ch70\<close>: after the code that opens the list, a code is written
  again only once, where 70 does not follow 66.
\<close>

theorem type3_font_65_66_70:
  assumes "set (used_chars f) = {65, 66, 70}" and "distinct (used_chars f)"
    and "get (fn f) 65 = Some g65" and "get (fn f) 66 = Some g66" and "get (fn f) 70 = Some g70"
  shows "\<exists>f' objs' d.
      write_definition f nid objs = Some (f', nid + 3, objs')
      \<and> last objs' = (fontId f, FontDict d)
      \<and> FirstChar d = 65 \<and> LastChar d = 70
      \<and> length (Widths d) = 6
      \<and> Widths d = [Declared (lwidth g65), Declared (lwidth g66), Zero, Zero, Zero,
                     Declared (lwidth g70)]
      \<and> Differences d = [Code 65, CharName 65, CharName 66, Code 70, CharName 70]
      \<and> CharProcs d = [(65, nid + 1), (66, nid + 2), (70, nid + 3)]"
proof -
  have srt: "sort (used_chars f) = [65, 66, 70]" by (rule sort_65_66_70 [OF assms(1,2)])
  let ?f1 = "f\<lparr>firstchar := 65, lastchar := 70\<rparr>"
  have "\<forall>c \<in> set [65, 66, 70]. get (fn ?f1) c \<noteq> None" using assms(3-5) by simp
  from write_glyphs_total [OF this, of nid objs]
  obtain f2 objs2 where w:
    "write_glyphs [65, 66, 70] ?f1 nid objs = Some ([nid + 1, nid + 2, nid + 3], f2, nid + 3, objs2)"
    "fn f2 = fn f" "used_chars f2 = used_chars f" "firstchar f2 = 65" "lastchar f2 = 70"
    "fontId f2 = fontId f"
    by (auto simp: upt_rec [of 0] upt_rec [of 1] upt_rec [of 2] numeral_2_eq_2 numeral_3_eq_3)
  have rng: "[65 .. 70 :: int] = [65, 66, 67, 68, 69, 70]"
    by (simp add: upto_rec1 [of 65] upto_rec1 [of 66] upto_rec1 [of 67] upto_rec1 [of 68]
        upto_rec1 [of 69])
  have ws: "widths f2 [65, 66, 67, 68, 69, 70]
      = Some [Declared (lwidth g65), Declared (lwidth g66), Zero, Zero, Zero, Declared (lwidth g70)]"
    using assms by (simp add: w)
  have df: "differences f2 [65, 66, 67, 68, 69, 70] 65
      = [Code 65, CharName 65, CharName 66, Code 70, CharName 70]"
    using assms by (simp add: w)
  have "write_definition f nid objs = Some (f2, nid + 3,
      objs2 @ [(fontId f, FontDict
        \<lparr>FontBBox = (b0 f2, b1 f2, b2 f2, b3 f2), FirstChar = 65, LastChar = 70,
         Widths = [Declared (lwidth g65), Declared (lwidth g66), Zero, Zero, Zero,
                   Declared (lwidth g70)],
         CharProcs = [(65, nid + 1), (66, nid + 2), (70, nid + 3)],
         notdef = nid + 1,
         Differences = [Code 65, CharName 65, CharName 66, Code 70, CharName 70]\<rparr>)])"
    unfolding write_definition_def Let_def srt
    by (simp add: w rng ws df del: write_glyphs.simps widths.simps differences.simps)
  then show ?thesis by simp
qed

theorem type3_font_witness:
  "set (used_chars t3B) = {65, 66, 70} \<and> distinct (used_chars t3B)
   \<and> get (fn t3B) 65 = Some glyphA
   \<and> map_option (\<lambda>r. fst (snd r)) (write_definition t3B 4 []) = Some 7"
proof -
  have u: "used_chars t3B = [70, 65, 66]" "fn t3B = fontB"
    by (simp_all add: t3B_def add_glyph_def new_t3font_def)
  have g: "get fontB 65 = Some glyphA" "get fontB 66 = Some glyphA" "get fontB 70 = Some glyphA"
    by (simp_all add: fontB_def)
  have s: "set (used_chars t3B) = {65, 66, 70}" by (auto simp: u)
  have d: "distinct (used_chars t3B)" by (simp add: u)
  show ?thesis
    using type3_font_65_66_70 [OF s d, of glyphA glyphA glyphA 4 "[]"] s d g
    by (auto simp: u)
qed


subsection \<open>Arcs\<close>



















subsection \<open>Outlines\<close>
























lemma well_nested_13: "well_nested [1, 3]"
  by (simp add: well_nested_def ok_level_def All_less_Suc Ex_less_Suc eval_nat_numeral)

lemma not_well_nested_132: "\<not> well_nested [1, 3, 2]"
  by (simp add: well_nested_def ok_level_def All_less_Suc Ex_less_Suc eval_nat_numeral)

text \<open>
  Outside these lists the loop stops early: an entry that is not deeper than the entry
  before it and has the level of no open node ends \<^verbatim>\<open>recurse\<close>, and \<^verbatim>\<open>flush_outlines\<close>
  writes no node for it and for the entries after it.
\<close>

lemma recurse_21:
  "fst (recurse pg sc [(t1, p1, x1, y1, 2), (t2, p2, x2, y2, 1)] parentId 0 nid [])
     = [(t2, p2, x2, y2, 1)]"
  by (simp add: recurse_def outline_loop.simps x5_def)

lemma recurse_132:
  "fst (recurse pg sc [(t1, p1, x1, y1, 1), (t2, p2, x2, y2, 3), (t3, p3, x3, y3, 2)] parentId 0 nid [])
     = [(t3, p3, x3, y3, 2)]"
  by (simp add: recurse_def outline_loop.simps x5_def)




end
